theory Spec2Isabelle
  imports Main "HOL-Library.Multiset"
begin

section \<open>The policy-based scheduler coordinator\<close>

text \<open>
  A shallow embedding of \<^verbatim>\<open>caf::scheduler::coordinator<Policy>\<close>
  (\<^verbatim>\<open>libcaf_core/caf/scheduler/coordinator.hpp\<close>). The member functions
  \<^verbatim>\<open>worker_by_id\<close>, \<^verbatim>\<open>data\<close>, \<^verbatim>\<open>start\<close>, \<^verbatim>\<open>stop\<close>, \<^verbatim>\<open>enqueue\<close> and the local class
  \<^verbatim>\<open>shutdown_helper\<close> are translated statement by statement. Every call that leaves the
  header (to a worker, to the policy, to the base class) appends an event to a trace, so
  that the order and the number of these calls can be stated.
\<close>

subsection \<open>Pointers, resumables and events\<close>

text \<open>A pointer is an address; address 0 is the null pointer.\<close>

type_synonym ptr = nat

definition nullptr :: ptr where
  "nullptr = 0"

text \<open>
  Modelled from the spec: the result type of \<^verbatim>\<open>resumable::resume\<close> (resumable.hpp is not
  part of the sources at hand). The header names only \<^verbatim>\<open>shutdown_execution_unit\<close>; the spec
  lists Done, AwaitingMoreWork and ShutdownExecutionUnit.
\<close>

datatype resume_result = resumable_done | awaiting_more_work | shutdown_execution_unit

text \<open>
  A \<^verbatim>\<open>resumable*\<close>: either one of the ordinary jobs or the address \<^verbatim>\<open>&sh\<close> of the
  shutdown helper that lives on the stack of \<^verbatim>\<open>stop()\<close>.
\<close>

datatype resumable_ptr = job nat | sh_ptr

datatype event =
    ev_new_worker ptr nat ptr nat
  | ev_worker_start ptr
  | ev_super_start
  | ev_ref
  | ev_external_enqueue ptr resumable_ptr
  | ev_lock
  | ev_set_last_worker ptr
  | ev_notify_all
  | ev_unlock
  | ev_stop_actors
  | ev_join ptr
  | ev_foreach_resumable ptr
  | ev_foreach_central_resumable
  | ev_cleanup_and_release resumable_ptr
  | ev_central_enqueue ptr resumable_ptr

subsection \<open>Workers and the coordinator\<close>

text \<open>
  Modelled from the spec: the worker (worker.hpp is not part of the sources at hand). A
  worker is identified by an index, refers back to its coordinator, carries the maximal
  number of steps per resume, owns one thread and owns its policy data, here a local queue.
\<close>

datatype thread_state = not_started | running | terminated | joined

record worker =
  worker_id :: nat
  worker_parent :: ptr
  worker_throughput :: nat
  this_thread :: thread_state
  local_queue :: "resumable_ptr list"

text \<open>
  The coordinator. \<open>workers\<close> is the member \<^verbatim>\<open>workers_\<close>, the vector of owning pointers,
  and \<open>policy_data\<close> is the member \<^verbatim>\<open>data_\<close>, the policy's coordinator data (Modelled from
  the spec: a central queue). \<open>num_workers\<close> and \<open>max_throughput\<close> are the configuration
  held by the base class (\<^verbatim>\<open>num_workers()\<close>, \<^verbatim>\<open>max_throughput_\<close>). \<open>this\<close> is the address of
  the coordinator object. \<open>heap\<close> holds the worker objects the pointers refer to and \<open>brk\<close>
  is the last address handed out by \<^verbatim>\<open>new\<close>; \<open>trace\<close> is the list of calls made so far.
  Indices and counts are \<^verbatim>\<open>size_t\<close> in the source; the only arithmetic on them is the
  increment of a loop index below its bound, which cannot wrap, so they are natural
  numbers here.
\<close>

record coordinator =
  this :: ptr
  num_workers :: nat
  max_throughput :: nat
  workers :: "ptr list"
  policy_data :: "resumable_ptr list"
  heap :: "ptr \<rightharpoonup> worker"
  brk :: ptr
  trace :: "event list"

text \<open>
  What can go wrong: indexing the vector out of range or dereferencing a pointer to no
  object is undefined behaviour; a wait or a join that nothing ever ends blocks forever;
  \<^verbatim>\<open>CAF_ASSERT\<close> can fail; joining a thread that is not joinable throws
  \<^verbatim>\<open>std::system_error\<close>. A fault carries the state at the moment it happened.
\<close>

datatype fault = undefined_behaviour | blocks_forever | assertion_failed | system_error

type_synonym 'a result = "(fault \<times> coordinator) + 'a"

definition and_then :: "'a result \<Rightarrow> ('a \<Rightarrow> 'b result) \<Rightarrow> 'b result" where
  "and_then r f = (case r of Inl e \<Rightarrow> Inl e | Inr x \<Rightarrow> f x)"

text \<open>A \<^verbatim>\<open>for\<close> loop over a range whose body can fault.\<close>

fun for_each :: "('a \<Rightarrow> 's \<Rightarrow> 's result) \<Rightarrow> 'a list \<Rightarrow> 's \<Rightarrow> 's result" where
  "for_each f [] s = Inr s"
| "for_each f (x # xs) s = and_then (f x s) (for_each f xs)"

definition log :: "event list \<Rightarrow> coordinator \<Rightarrow> coordinator" where
  "log es c = c\<lparr>trace := trace c @ es\<rparr>"

text \<open>
  The constructor \<^verbatim>\<open>coordinator(actor_system& sys)\<close>: the vector is empty, and the
  configuration is what the base class reads from the system.
\<close>

definition new_coordinator :: "ptr \<Rightarrow> nat \<Rightarrow> nat \<Rightarrow> coordinator" where
  "new_coordinator self n mt =
     \<lparr>this = self, num_workers = n, max_throughput = mt, workers = [], policy_data = [],
      heap = Map.empty, brk = 0, trace = []\<rparr>"

text \<open>
  \<^verbatim>\<open>worker_by_id(x)\<close> is \<^verbatim>\<open>workers_[x].get()\<close>. The vector's \<^verbatim>\<open>operator[]\<close> checks no
  bounds: out of range the behaviour is undefined, which is the value \<open>None\<close> here.
\<close>

definition worker_by_id :: "coordinator \<Rightarrow> nat \<Rightarrow> ptr option" where
  "worker_by_id c x = (if x < length (workers c) then Some (workers c ! x) else None)"

definition data :: "coordinator \<Rightarrow> resumable_ptr list" where
  "data c = policy_data c"

subsection \<open>The collaborators\<close>

text \<open>
  Modelled from the spec: the constructor of the worker. It stores the index, the
  back-reference to the coordinator and the maximal number of steps per resume; the
  thread is not started yet and the queue is empty.
\<close>

definition worker_ctor :: "nat \<Rightarrow> ptr \<Rightarrow> nat \<Rightarrow> worker" where
  "worker_ctor i parent mt =
     \<lparr>worker_id = i, worker_parent = parent, worker_throughput = mt,
      this_thread = not_started, local_queue = []\<rparr>"

text \<open>
  \<^verbatim>\<open>new worker_type(i, this, max_throughput_)\<close>: the allocator hands out the next address,
  which is never null and was never handed out before, and the constructor runs there.
\<close>

definition new_worker_type :: "nat \<Rightarrow> ptr \<Rightarrow> nat \<Rightarrow> coordinator \<Rightarrow> ptr \<times> coordinator" where
  "new_worker_type i parent mt c =
     (let p = Suc (brk c) in
      (p, c\<lparr>heap := (heap c)(p \<mapsto> worker_ctor i parent mt),
             brk := p,
             trace := trace c @ [ev_new_worker p i parent mt]\<rparr>))"

text \<open>
  Modelled from the spec: \<^verbatim>\<open>worker::start()\<close> spawns the owning thread, which begins the
  run loop.
\<close>

definition worker_start :: "ptr \<Rightarrow> coordinator \<Rightarrow> coordinator result" where
  "worker_start w c =
     (case heap c w of
        None \<Rightarrow> Inl (undefined_behaviour, c)
      | Some wk \<Rightarrow> Inr (log [ev_worker_start w] (c\<lparr>heap := (heap c)(w \<mapsto> wk\<lparr>this_thread := running\<rparr>)\<rparr>)))"

text \<open>
  Modelled from the spec: \<^verbatim>\<open>worker::external_enqueue(job)\<close> inserts the job into the
  worker's queue.
\<close>

definition external_enqueue :: "ptr \<Rightarrow> resumable_ptr \<Rightarrow> coordinator \<Rightarrow> coordinator result" where
  "external_enqueue w j c =
     (case heap c w of
        None \<Rightarrow> Inl (undefined_behaviour, c)
      | Some wk \<Rightarrow> Inr (log [ev_external_enqueue w j]
                        (c\<lparr>heap := (heap c)(w \<mapsto> wk\<lparr>local_queue := local_queue wk @ [j]\<rparr>)\<rparr>)))"

text \<open>
  Modelled from the spec: \<^verbatim>\<open>worker::get_thread().join()\<close>. A thread that has terminated is
  joined. A thread that still runs its loop never ends by itself, so the join blocks. A
  thread that was never started or was joined already is not joinable.
\<close>

definition join_thread :: "ptr \<Rightarrow> coordinator \<Rightarrow> coordinator result" where
  "join_thread w c =
     (case heap c w of
        None \<Rightarrow> Inl (undefined_behaviour, c)
      | Some wk \<Rightarrow>
          (case this_thread wk of
             terminated \<Rightarrow> Inr (log [ev_join w] (c\<lparr>heap := (heap c)(w \<mapsto> wk\<lparr>this_thread := joined\<rparr>)\<rparr>))
           | running \<Rightarrow> Inl (blocks_forever, log [ev_join w] c)
           | not_started \<Rightarrow> Inl (system_error, log [ev_join w] c)
           | joined \<Rightarrow> Inl (system_error, log [ev_join w] c)))"

text \<open>Modelled from the spec: the base class's \<^verbatim>\<open>start()\<close> and \<^verbatim>\<open>stop_actors()\<close>.\<close>

definition super_start :: "coordinator \<Rightarrow> coordinator" where
  "super_start c = log [ev_super_start] c"

definition stop_actors :: "coordinator \<Rightarrow> coordinator" where
  "stop_actors c = log [ev_stop_actors] c"

text \<open>
  Modelled from the spec: the policy. \<^verbatim>\<open>central_enqueue(self, job)\<close> places the job in the
  central queue; \<^verbatim>\<open>foreach_resumable(worker, f)\<close> and \<^verbatim>\<open>foreach_central_resumable(self, f)\<close>
  apply \<open>f\<close> to every resumable queued at the worker, respectively in the central queue.
\<close>

definition central_enqueue :: "ptr \<Rightarrow> resumable_ptr \<Rightarrow> coordinator \<Rightarrow> coordinator" where
  "central_enqueue self j c = log [ev_central_enqueue self j] (c\<lparr>policy_data := policy_data c @ [j]\<rparr>)"

definition foreach_resumable ::
  "ptr \<Rightarrow> (resumable_ptr \<Rightarrow> coordinator \<Rightarrow> coordinator) \<Rightarrow> coordinator \<Rightarrow> coordinator result" where
  "foreach_resumable w f c =
     (case heap c w of
        None \<Rightarrow> Inl (undefined_behaviour, c)
      | Some wk \<Rightarrow> Inr (fold f (local_queue wk) (log [ev_foreach_resumable w] c)))"

definition foreach_central_resumable ::
  "ptr \<Rightarrow> (resumable_ptr \<Rightarrow> coordinator \<Rightarrow> coordinator) \<Rightarrow> coordinator \<Rightarrow> coordinator" where
  "foreach_central_resumable self f c = fold f (policy_data c) (log [ev_foreach_central_resumable] c)"

text \<open>Modelled from the spec: \<^verbatim>\<open>abstract_coordinator::cleanup_and_release\<close>, the release callback.\<close>

definition cleanup_and_release :: "resumable_ptr \<Rightarrow> coordinator \<Rightarrow> coordinator" where
  "cleanup_and_release j c = log [ev_cleanup_and_release j] c"

subsection \<open>The shutdown helper\<close>

text \<open>
  The local class \<^verbatim>\<open>shutdown_helper\<close>: the field \<open>last_worker\<close>, and the reference count
  of its base class \<^verbatim>\<open>ref_counted\<close>. The constructor sets \<open>last_worker\<close> to null. The
  count a fresh \<^verbatim>\<open>ref_counted\<close> object starts with is a parameter (ref_counted.hpp is not
  part of the sources at hand).
\<close>

record shutdown_helper =
  last_worker :: ptr
  rc :: nat

definition new_shutdown_helper :: "nat \<Rightarrow> shutdown_helper" where
  "new_shutdown_helper rc0 = \<lparr>last_worker = nullptr, rc = rc0\<rparr>"

text \<open>
  Modelled from the spec: \<^verbatim>\<open>ref_counted::ref()\<close> adds one reference and a release takes
  one away; the object is destroyed when a release takes the last one.
\<close>

definition ref :: "shutdown_helper \<Rightarrow> shutdown_helper" where
  "ref sh = sh\<lparr>rc := rc sh + 1\<rparr>"

definition deref :: "shutdown_helper \<Rightarrow> shutdown_helper" where
  "deref sh = sh\<lparr>rc := rc sh - 1\<rparr>"

definition destroyed :: "shutdown_helper \<Rightarrow> bool" where
  "destroyed sh = (rc sh = 0)"

text \<open>
  \<^verbatim>\<open>shutdown_helper::resume(ptr, max_steps)\<close>. \<^verbatim>\<open>CAF_ASSERT\<close> aborts on a null pointer when
  runtime checks are compiled in (\<open>chk\<close>) and is empty otherwise. The guard locks the
  mutex, \<open>last_worker\<close> is assigned, the condition variable is notified, and the guard
  unlocks when the function returns \<^verbatim>\<open>shutdown_execution_unit\<close>.
\<close>

definition resume ::
  "bool \<Rightarrow> shutdown_helper \<Rightarrow> ptr \<Rightarrow> nat \<Rightarrow> fault + (resume_result \<times> shutdown_helper \<times> event list)" where
  "resume chk sh p max_steps =
     (if chk \<and> p = nullptr then Inl assertion_failed
      else Inr (shutdown_execution_unit, sh\<lparr>last_worker := p\<rparr>,
                [ev_lock, ev_set_last_worker p, ev_notify_all, ev_unlock]))"

text \<open>
  Modelled from the spec: what happens while \<^verbatim>\<open>stop()\<close> waits. The helper was submitted
  to worker \<open>t\<close>; the policy lets worker \<open>w\<close> find it (\<open>w\<close> is \<open>t\<close>, or a worker that steals
  it). Only a worker whose thread runs its loop takes a job out of a queue; if \<open>w\<close> is no
  such worker, nobody ever resumes the helper. Otherwise \<open>w\<close> removes the helper from the
  queue of \<open>t\<close> and resumes it with itself as execution unit, and its run loop ends when
  the result is \<^verbatim>\<open>shutdown_execution_unit\<close>. What the workers do with ordinary jobs in
  the meantime is not modelled: the queues keep them.
\<close>

definition run_helper ::
  "bool \<Rightarrow> ptr \<Rightarrow> ptr \<Rightarrow> shutdown_helper \<Rightarrow> coordinator \<Rightarrow> (shutdown_helper \<times> coordinator) result" where
  "run_helper chk t w sh c =
     (case (heap c t, heap c w) of
        (Some tk, Some wk) \<Rightarrow>
          if this_thread wk \<noteq> running \<or> sh_ptr \<notin> set (local_queue tk) then Inl (blocks_forever, c)
          else
            (case resume chk sh w (worker_throughput wk) of
               Inl f \<Rightarrow> Inl (f, c)
             | Inr (res, sh', es) \<Rightarrow>
                 let h1 = (heap c)(t \<mapsto> tk\<lparr>local_queue := remove1 sh_ptr (local_queue tk)\<rparr>);
                     h2 = (case h1 w of
                             None \<Rightarrow> h1
                           | Some wk' \<Rightarrow> h1(w \<mapsto> wk'\<lparr>this_thread :=
                               (if res = shutdown_execution_unit then terminated else running)\<rparr>))
                 in Inr (sh', log es (c\<lparr>heap := h2\<rparr>)))
      | _ \<Rightarrow> Inl (blocks_forever, c))"

subsection \<open>start, stop and enqueue\<close>

text \<open>
  \<^verbatim>\<open>start()\<close>: construct \<open>num\<close> workers, then start each of them, then run the base
  class's startup. \<^verbatim>\<open>reserve\<close> changes the capacity of the vector only.
\<close>

definition emplace_back_worker :: "nat \<Rightarrow> coordinator \<Rightarrow> coordinator" where
  "emplace_back_worker i c =
     (let (p, c') = new_worker_type i (this c) (max_throughput c) c
      in c'\<lparr>workers := workers c' @ [p]\<rparr>)"

definition start :: "coordinator \<Rightarrow> coordinator result" where
  "start c =
     (let num = num_workers c;
          c1 = fold emplace_back_worker [0..<num] c
      in and_then (for_each worker_start (workers c1) c1) (\<lambda>c2. Inr (super_start c2)))"

text \<open>
  The first loop of \<^verbatim>\<open>stop()\<close>: insert the pointer of every worker into the set and add
  one reference to the helper for each.
\<close>

definition insert_alive ::
  "nat \<Rightarrow> ptr set \<times> shutdown_helper \<times> coordinator \<Rightarrow> (ptr set \<times> shutdown_helper \<times> coordinator) result" where
  "insert_alive i s =
     (case s of (alive_workers, sh, c) \<Rightarrow>
        (case worker_by_id c i of
           None \<Rightarrow> Inl (undefined_behaviour, c)
         | Some p \<Rightarrow> Inr (insert p alive_workers, ref sh, log [ev_ref] c)))"

text \<open>
  The \<^verbatim>\<open>while\<close> loop of \<^verbatim>\<open>stop()\<close>. \<open>sched\<close> lists, for each submission, the worker the
  policy lets find the helper. \<^verbatim>\<open>*alive_workers.begin()\<close> is the least pointer of the set.
  The wait returns once \<open>last_worker\<close> is not null; with the schedule exhausted nothing
  ever sets it.
\<close>

fun drain ::
  "bool \<Rightarrow> ptr list \<Rightarrow> ptr set \<Rightarrow> shutdown_helper \<Rightarrow> coordinator
     \<Rightarrow> (ptr set \<times> shutdown_helper \<times> coordinator) result" where
  "drain chk sched alive_workers sh c =
     (if alive_workers = {} then Inr (alive_workers, sh, c)
      else and_then (external_enqueue (Min alive_workers) sh_ptr c) (\<lambda>c1.
             case sched of
               [] \<Rightarrow> Inl (blocks_forever, c1)
             | w # sched' \<Rightarrow>
                 and_then (run_helper chk (Min alive_workers) w sh c1) (\<lambda>(sh1, c2).
                   if last_worker sh1 = nullptr then Inl (blocks_forever, c2)
                   else drain chk sched' (alive_workers - {last_worker sh1})
                          (sh1\<lparr>last_worker := nullptr\<rparr>) c2)))"

definition shutdown_workers ::
  "bool \<Rightarrow> nat \<Rightarrow> ptr list \<Rightarrow> coordinator \<Rightarrow> (ptr set \<times> shutdown_helper \<times> coordinator) result" where
  "shutdown_workers chk rc0 sched c =
     and_then (for_each insert_alive [0..<num_workers c] ({}, new_shutdown_helper rc0, c))
       (\<lambda>(alive_workers, sh, c1). drain chk sched alive_workers sh c1)"

text \<open>The join loop, the cleanup loop and the last call of \<^verbatim>\<open>stop()\<close>.\<close>

definition join_workers :: "coordinator \<Rightarrow> coordinator result" where
  "join_workers c = for_each join_thread (workers c) c"

definition cleanup_resumables :: "coordinator \<Rightarrow> coordinator result" where
  "cleanup_resumables c =
     and_then (for_each (\<lambda>w. foreach_resumable w cleanup_and_release) (workers c) c)
       (\<lambda>c'. Inr (foreach_central_resumable (this c') cleanup_and_release c'))"

definition stop :: "bool \<Rightarrow> nat \<Rightarrow> ptr list \<Rightarrow> coordinator \<Rightarrow> coordinator result" where
  "stop chk rc0 sched c =
     and_then (shutdown_workers chk rc0 sched c) (\<lambda>(alive_workers, sh, c1).
       and_then (join_workers (stop_actors c1)) cleanup_resumables)"

definition enqueue :: "coordinator \<Rightarrow> resumable_ptr \<Rightarrow> coordinator" where
  "enqueue c p = central_enqueue (this c) p c"

subsection \<open>Observations on states and traces\<close>

text \<open>The state a call ends in, be it by returning or by a fault.\<close>

definition state_of :: "coordinator result \<Rightarrow> coordinator" where
  "state_of r = (case r of Inl (f, c) \<Rightarrow> c | Inr c \<Rightarrow> c)"

definition state_of3 :: "('a \<times> 'b \<times> coordinator) result \<Rightarrow> coordinator" where
  "state_of3 r = (case r of Inl (f, c) \<Rightarrow> c | Inr (a, b, c) \<Rightarrow> c)"

text \<open>The events a call has appended to the trace.\<close>

definition new_events :: "coordinator \<Rightarrow> coordinator \<Rightarrow> event list" where
  "new_events c c' = drop (length (trace c)) (trace c')"

text \<open>
  The workers the helper was submitted to, and the workers the helper reported, in the
  order of a trace.
\<close>

fun submissions :: "event list \<Rightarrow> ptr list" where
  "submissions [] = []"
| "submissions (ev_external_enqueue t sh_ptr # es) = t # submissions es"
| "submissions (e # es) = submissions es"

fun reports :: "event list \<Rightarrow> ptr list" where
  "reports [] = []"
| "reports (ev_set_last_worker w # es) = w # reports es"
| "reports (e # es) = reports es"

text \<open>
  Every submission of the helper goes to a member of the set, where a report takes the
  reporting worker out of the set.
\<close>

fun submits_to_alive :: "ptr set \<Rightarrow> event list \<Rightarrow> bool" where
  "submits_to_alive A [] = True"
| "submits_to_alive A (ev_external_enqueue t sh_ptr # es) = (t \<in> A \<and> submits_to_alive A es)"
| "submits_to_alive A (ev_set_last_worker w # es) = submits_to_alive (A - {w}) es"
| "submits_to_alive A (e # es) = submits_to_alive A es"

text \<open>The state \<^verbatim>\<open>start()\<close> leaves behind: the pool is populated and every thread runs.\<close>

definition started :: "coordinator \<Rightarrow> bool" where
  "started c \<longleftrightarrow>
     length (workers c) = num_workers c \<and> distinct (workers c) \<and> nullptr \<notin> set (workers c) \<and>
     (\<forall>p\<in>set (workers c). \<exists>wk. heap c p = Some wk \<and> this_thread wk = running) \<and>
     (\<forall>p. p \<notin> set (workers c) \<longrightarrow> heap c p = None)"

text \<open>
  Modelled from the spec: a policy that is correct with respect to liveness lets every
  submission be found by a worker that still runs. For the \<open>num_workers\<close> submissions of
  one shutdown these are that many different workers of the pool.
\<close>

definition delivers :: "ptr list \<Rightarrow> coordinator \<Rightarrow> bool" where
  "delivers sched c \<longleftrightarrow>
     distinct (take (num_workers c) sched) \<and> set (take (num_workers c) sched) = set (workers c)"

text \<open>The queue of a worker, and the events of the cleanup pass for given queues.\<close>

definition queue_of :: "coordinator \<Rightarrow> ptr \<Rightarrow> resumable_ptr list" where
  "queue_of c w = (case heap c w of None \<Rightarrow> [] | Some wk \<Rightarrow> local_queue wk)"

definition cleanup_events :: "coordinator \<Rightarrow> event list" where
  "cleanup_events c =
     concat (map (\<lambda>w. ev_foreach_resumable w # map ev_cleanup_and_release (queue_of c w)) (workers c))
     @ ev_foreach_central_resumable # map ev_cleanup_and_release (policy_data c)"

fun foreach_calls :: "event list \<Rightarrow> event list" where
  "foreach_calls [] = []"
| "foreach_calls (ev_foreach_resumable w # es) = ev_foreach_resumable w # foreach_calls es"
| "foreach_calls (ev_foreach_central_resumable # es) = ev_foreach_central_resumable # foreach_calls es"
| "foreach_calls (e # es) = foreach_calls es"

fun cleaned :: "event list \<Rightarrow> resumable_ptr list" where
  "cleaned [] = []"
| "cleaned (ev_cleanup_and_release j # es) = j # cleaned es"
| "cleaned (e # es) = cleaned es"

definition queued :: "coordinator \<Rightarrow> resumable_ptr list" where
  "queued c = concat (map (queue_of c) (workers c)) @ policy_data c"

text \<open>The events of the first loop and of the drain loop of \<^verbatim>\<open>stop()\<close>.\<close>

fun drain_event :: "event \<Rightarrow> bool" where
  "drain_event ev_ref = True"
| "drain_event (ev_external_enqueue t j) = True"
| "drain_event ev_lock = True"
| "drain_event (ev_set_last_worker w) = True"
| "drain_event ev_notify_all = True"
| "drain_event ev_unlock = True"
| "drain_event e = False"

text \<open>
  The operations of a coordinator that has been started, as calls, and a sequence of such
  calls. \<^verbatim>\<open>worker_by_id\<close> and \<^verbatim>\<open>data\<close> only read.
\<close>

datatype call =
    call_enqueue resumable_ptr
  | call_worker_by_id nat
  | call_data
  | call_stop bool nat "ptr list"

fun perform :: "call \<Rightarrow> coordinator \<Rightarrow> coordinator result" where
  "perform (call_enqueue p) c = Inr (enqueue c p)"
| "perform (call_worker_by_id x) c =
     (case worker_by_id c x of None \<Rightarrow> Inl (undefined_behaviour, c) | Some p \<Rightarrow> Inr c)"
| "perform call_data c = (case data c of q \<Rightarrow> Inr c)"
| "perform (call_stop chk rc0 sched) c = stop chk rc0 sched c"

text \<open>The indices of the workers the pool points to.\<close>

definition pool_ids :: "coordinator \<Rightarrow> nat option list" where
  "pool_ids c = map (\<lambda>p. map_option worker_id (heap c p)) (workers c)"

subsection \<open>Notions used in the proofs\<close>

text \<open>The state a computation ends in, for results of any shape.\<close>

definition final :: "('a \<Rightarrow> coordinator) \<Rightarrow> 'a result \<Rightarrow> coordinator" where
  "final g r = (case r of Inl (f, c) \<Rightarrow> c | Inr x \<Rightarrow> g x)"

text \<open>
  What every operation after \<^verbatim>\<open>start()\<close> keeps: the vector, the configuration, the
  allocator, the index of every worker object; and the trace only grows, by events of a
  given kind.
\<close>

definition steps_to :: "(event \<Rightarrow> bool) \<Rightarrow> coordinator \<Rightarrow> coordinator \<Rightarrow> bool" where
  "steps_to P c c' \<longleftrightarrow>
     workers c' = workers c \<and> this c' = this c \<and> num_workers c' = num_workers c \<and>
     max_throughput c' = max_throughput c \<and> brk c' = brk c \<and>
     (\<forall>p. map_option worker_id (heap c' p) = map_option worker_id (heap c p)) \<and>
     (\<exists>es. trace c' = trace c @ es \<and> list_all P es)"

text \<open>The state of the thread of the worker at an address.\<close>

definition thread_of :: "coordinator \<Rightarrow> ptr \<Rightarrow> thread_state option" where
  "thread_of c p = map_option this_thread (heap c p)"

text \<open>
  The invariant of the \<^verbatim>\<open>while\<close> loop of \<^verbatim>\<open>stop()\<close>: the set holds exactly the workers
  whose threads still run.
\<close>

definition alive_inv :: "ptr set \<Rightarrow> coordinator \<Rightarrow> bool" where
  "alive_inv A c \<longleftrightarrow>
     finite A \<and> nullptr \<notin> A \<and>
     (\<forall>p. p \<in> A \<longleftrightarrow> thread_of c p = Some running)"

text \<open>A schedule that lets the members of a set find the helper, one after the other.\<close>

definition fair :: "ptr set \<Rightarrow> ptr list \<Rightarrow> bool" where
  "fair A sched \<longleftrightarrow> distinct (take (card A) sched) \<and> set (take (card A) sched) = A"

text \<open>The events that are neither a submission nor a report.\<close>

fun quiet :: "event \<Rightarrow> bool" where
  "quiet (ev_external_enqueue t j) = False"
| "quiet (ev_set_last_worker w) = False"
| "quiet e = True"

text \<open>Whether a computation returns.\<close>

definition returns :: "'a result \<Rightarrow> bool" where
  "returns r = (case r of Inl e \<Rightarrow> False | Inr x \<Rightarrow> True)"

subsection \<open>An example\<close>

text \<open>
  A coordinator at address 7 with two workers and at most 5 steps per resume, started;
  job 4 was enqueued at the coordinator and job 9 at the first worker. The workers live
  at the addresses 1 and 2.
\<close>

definition example_pool :: coordinator where
  "example_pool =
     state_of (and_then (start (new_coordinator 7 2 5))
                (\<lambda>c. external_enqueue 1 (job 9) (enqueue c (job 4))))"

section \<open>Properties\<close>

subsection \<open>Sequencing\<close>

lemma and_then_Inr [simp]: "and_then (Inr x) f = f x"
  by (simp add: and_then_def)

lemma and_then_Inl [simp]: "and_then (Inl e) f = Inl e"
  by (simp add: and_then_def)

lemma and_then_eq_Inr: "and_then r f = Inr y \<longleftrightarrow> (\<exists>x. r = Inr x \<and> f x = Inr y)"
  by (cases r) simp_all

subsection \<open>The shutdown helper\<close>

text \<open>
  C3. Whichever worker resumes the shutdown helper, and with whatever step bound: between
  locking and unlocking the mutex the helper stores that worker in \<open>last_worker\<close> and
  notifies the condition variable, nothing else of the helper changes, and the result is
  \<^verbatim>\<open>shutdown_execution_unit\<close>. No call of \<open>resume\<close> returns another result.
\<close>

theorem shutdown_helper_resume_reports_worker:
  "(w \<noteq> nullptr \<longrightarrow>
      resume chk sh w max_steps =
        Inr (shutdown_execution_unit, sh\<lparr>last_worker := w\<rparr>,
             [ev_lock, ev_set_last_worker w, ev_notify_all, ev_unlock])) \<and>
   (\<forall>r sh' es. resume chk sh w max_steps = Inr (r, sh', es) \<longrightarrow> r = shutdown_execution_unit)"
  by (auto simp: resume_def split: if_splits)

theorem shutdown_helper_resume_reports_worker_witness:
  "(3::nat) \<noteq> nullptr \<and>
   resume True (new_shutdown_helper 1) 3 5 =
     Inr (shutdown_execution_unit, \<lparr>last_worker = 3, rc = 1\<rparr>,
          [ev_lock, ev_set_last_worker 3, ev_notify_all, ev_unlock])"
  using shutdown_helper_resume_reports_worker [of 3 True "new_shutdown_helper 1" 5]
  by (simp add: nullptr_def new_shutdown_helper_def)

subsection \<open>enqueue\<close>

text \<open>
  C9. For every resumable pointer \<open>p\<close>, \<open>enqueue\<close> is the policy's \<open>central_enqueue\<close>
  applied to this coordinator and \<open>p\<close>, and nothing else: the state it leaves is the state
  \<open>central_enqueue\<close> leaves, and the one call it makes is that call.
\<close>

theorem enqueue_is_central_enqueue:
  "enqueue c p = central_enqueue (this c) p c \<and>
   trace (enqueue c p) = trace c @ [ev_central_enqueue (this c) p]"
  by (simp add: enqueue_def central_enqueue_def log_def)

theorem enqueue_is_central_enqueue_witness:
  "enqueue (new_coordinator 7 2 5) (job 4) = central_enqueue 7 (job 4) (new_coordinator 7 2 5) \<and>
   trace (enqueue (new_coordinator 7 2 5) (job 4)) = [ev_central_enqueue 7 (job 4)] \<and>
   policy_data (enqueue (new_coordinator 7 2 5) (job 4)) = [job 4]"
  using enqueue_is_central_enqueue [of "new_coordinator 7 2 5" "job 4"]
  by (simp add: new_coordinator_def central_enqueue_def log_def)

subsection \<open>start and worker_by_id\<close>

lemma emplace_back_worker_eq:
  "emplace_back_worker i c =
     c\<lparr>heap := (heap c)(Suc (brk c) \<mapsto> worker_ctor i (this c) (max_throughput c)),
       brk := Suc (brk c),
       trace := trace c @ [ev_new_worker (Suc (brk c)) i (this c) (max_throughput c)],
       workers := workers c @ [Suc (brk c)]\<rparr>"
  by (simp add: emplace_back_worker_def new_worker_type_def Let_def)

lemma fold_emplace_back_worker:
  "this (fold emplace_back_worker [0..<n] c) = this c \<and>
   num_workers (fold emplace_back_worker [0..<n] c) = num_workers c \<and>
   max_throughput (fold emplace_back_worker [0..<n] c) = max_throughput c \<and>
   policy_data (fold emplace_back_worker [0..<n] c) = policy_data c \<and>
   brk (fold emplace_back_worker [0..<n] c) = brk c + n \<and>
   workers (fold emplace_back_worker [0..<n] c) = workers c @ map (\<lambda>i. Suc (brk c + i)) [0..<n] \<and>
   trace (fold emplace_back_worker [0..<n] c) =
     trace c @ map (\<lambda>i. ev_new_worker (Suc (brk c + i)) i (this c) (max_throughput c)) [0..<n] \<and>
   (\<forall>p. heap (fold emplace_back_worker [0..<n] c) p =
     (if brk c < p \<and> p \<le> brk c + n
      then Some (worker_ctor (p - Suc (brk c)) (this c) (max_throughput c))
      else heap c p))"
proof (induction n)
  case 0
  show ?case by auto
next
  case (Suc n)
  show ?case
    using Suc by (auto simp: emplace_back_worker_eq)
qed

lemma for_each_worker_start:
  "\<forall>p\<in>set ws. heap c p \<noteq> None \<Longrightarrow>
   \<exists>c'. for_each worker_start ws c = Inr c' \<and>
     this c' = this c \<and> num_workers c' = num_workers c \<and> max_throughput c' = max_throughput c \<and>
     policy_data c' = policy_data c \<and> brk c' = brk c \<and> workers c' = workers c \<and>
     trace c' = trace c @ map ev_worker_start ws \<and>
     (\<forall>p. heap c' p = (if p \<in> set ws
                        then map_option (\<lambda>wk. wk\<lparr>this_thread := running\<rparr>) (heap c p)
                        else heap c p))"
proof (induction ws arbitrary: c)
  case Nil
  show ?case by simp
next
  case (Cons w ws)
  from Cons.prems obtain wk where wk: "heap c w = Some wk" by auto
  define c1 where "c1 = log [ev_worker_start w] (c\<lparr>heap := (heap c)(w \<mapsto> wk\<lparr>this_thread := running\<rparr>)\<rparr>)"
  have step: "worker_start w c = Inr c1"
    by (simp add: worker_start_def wk c1_def)
  have "\<forall>p\<in>set ws. heap c1 p \<noteq> None"
    using Cons.prems by (simp add: c1_def log_def)
  from Cons.IH [OF this] obtain c' where c':
    "for_each worker_start ws c1 = Inr c'"
    "this c' = this c1" "num_workers c' = num_workers c1" "max_throughput c' = max_throughput c1"
    "policy_data c' = policy_data c1" "brk c' = brk c1" "workers c' = workers c1"
    "trace c' = trace c1 @ map ev_worker_start ws"
    "\<forall>p. heap c' p = (if p \<in> set ws
                        then map_option (\<lambda>wk. wk\<lparr>this_thread := running\<rparr>) (heap c1 p)
                        else heap c1 p)"
    by blast
  have "for_each worker_start (w # ws) c = Inr c'"
    by (simp add: step c'(1))
  moreover have "\<forall>p. heap c' p = (if p \<in> set (w # ws)
                        then map_option (\<lambda>wk. wk\<lparr>this_thread := running\<rparr>) (heap c p)
                        else heap c p)"
    using c'(9) wk by (auto simp: c1_def log_def)
  ultimately show ?case
    using c'(2-8) by (simp add: c1_def log_def)
qed

lemma start_new_coordinator:
  "\<exists>c'. start (new_coordinator self n mt) = Inr c' \<and>
     this c' = self \<and> num_workers c' = n \<and> max_throughput c' = mt \<and> policy_data c' = [] \<and>
     workers c' = map Suc [0..<n] \<and>
     trace c' = map (\<lambda>i. ev_new_worker (Suc i) i self mt) [0..<n]
                @ map ev_worker_start (map Suc [0..<n]) @ [ev_super_start] \<and>
     (\<forall>p. heap c' p = (if 0 < p \<and> p \<le> n then Some ((worker_ctor (p - 1) self mt)\<lparr>this_thread := running\<rparr>) else None))"
proof -
  define c0 where "c0 = new_coordinator self n mt"
  define c1 where "c1 = fold emplace_back_worker [0..<n] c0"
  have c0: "this c0 = self" "num_workers c0 = n" "max_throughput c0 = mt" "policy_data c0 = []"
    "brk c0 = 0" "workers c0 = []" "trace c0 = []" "heap c0 = Map.empty"
    by (simp_all add: c0_def new_coordinator_def)
  have c1: "this c1 = self" "num_workers c1 = n" "max_throughput c1 = mt" "policy_data c1 = []"
    "brk c1 = n" "workers c1 = map Suc [0..<n]"
    "trace c1 = map (\<lambda>i. ev_new_worker (Suc i) i self mt) [0..<n]"
    "\<And>p. heap c1 p = (if 0 < p \<and> p \<le> n then Some (worker_ctor (p - 1) self mt) else None)"
    using fold_emplace_back_worker [of n c0] by (simp_all add: c1_def c0)
  have "\<forall>p\<in>set (workers c1). heap c1 p \<noteq> None"
    by (auto simp: c1)
  from for_each_worker_start [OF this] obtain c2 where c2:
    "for_each worker_start (workers c1) c1 = Inr c2"
    "this c2 = this c1" "num_workers c2 = num_workers c1" "max_throughput c2 = max_throughput c1"
    "policy_data c2 = policy_data c1" "brk c2 = brk c1" "workers c2 = workers c1"
    "trace c2 = trace c1 @ map ev_worker_start (workers c1)"
    "\<forall>p. heap c2 p = (if p \<in> set (workers c1)
                        then map_option (\<lambda>wk. wk\<lparr>this_thread := running\<rparr>) (heap c1 p)
                        else heap c1 p)"
    by blast
  have "start c0 = Inr (super_start c2)"
    using c2(1) by (simp add: start_def Let_def c0(2) c1_def)
  moreover have "\<forall>p. heap c2 p = (if 0 < p \<and> p \<le> n then Some ((worker_ctor (p - 1) self mt)\<lparr>this_thread := running\<rparr>) else None)"
    using c2(9) by (auto simp: c1)
  ultimately show ?thesis
    using c2(2-8) by (simp add: c0_def [symmetric] super_start_def log_def c1)
qed


text \<open>
  C6. For every worker count \<open>n\<close> (so for every \<open>n \<ge> 1\<close>), \<open>start\<close> on a freshly
  constructed coordinator returns with exactly \<open>n\<close> workers in the pool, all different
  objects and no worker object besides them; the worker at position \<open>i\<close> was constructed
  with index \<open>i\<close>, this coordinator as parent and the configured maximal throughput. The
  trace shows the \<open>n\<close> constructions first, then the \<open>n\<close> thread starts in pool order, and
  the startup of the base class last.
\<close>

theorem start_constructs_pool_then_starts_threads:
  "\<exists>c'. start (new_coordinator self n mt) = Inr c' \<and>
     length (workers c') = n \<and> distinct (workers c') \<and>
     (\<forall>i<n. heap c' (workers c' ! i) =
        Some \<lparr>worker_id = i, worker_parent = self, worker_throughput = mt,
              this_thread = running, local_queue = []\<rparr>) \<and>
     (\<forall>p. p \<notin> set (workers c') \<longrightarrow> heap c' p = None) \<and>
     trace c' = map (\<lambda>i. ev_new_worker (workers c' ! i) i self mt) [0..<n]
                @ map ev_worker_start (workers c') @ [ev_super_start]"
proof -
  from start_new_coordinator [of self n mt] obtain c' where c':
    "start (new_coordinator self n mt) = Inr c'"
    "workers c' = map Suc [0..<n]"
    "trace c' = map (\<lambda>i. ev_new_worker (Suc i) i self mt) [0..<n]
                @ map ev_worker_start (map Suc [0..<n]) @ [ev_super_start]"
    "\<forall>p. heap c' p = (if 0 < p \<and> p \<le> n then Some ((worker_ctor (p - 1) self mt)\<lparr>this_thread := running\<rparr>) else None)"
    by blast
  have "distinct (workers c')"
    by (simp add: c'(2) distinct_map)
  moreover have "\<forall>i<n. heap c' (workers c' ! i) =
        Some \<lparr>worker_id = i, worker_parent = self, worker_throughput = mt,
              this_thread = running, local_queue = []\<rparr>"
    by (simp add: c'(2,4) worker_ctor_def)
  moreover have "\<forall>p. p \<notin> set (workers c') \<longrightarrow> heap c' p = None"
  proof (intro allI impI)
    fix p assume "p \<notin> set (workers c')"
    then have "\<not> (0 < p \<and> p \<le> n)"
      by (cases p) (auto simp: c'(2) image_iff)
    then show "heap c' p = None" by (simp add: c'(4))
  qed
  moreover have "map (\<lambda>i. ev_new_worker (workers c' ! i) i self mt) [0..<n]
      = map (\<lambda>i. ev_new_worker (Suc i) i self mt) [0..<n]"
    by (simp add: c'(2))
  ultimately show ?thesis
    using c'(1,2,3) by simp
qed

theorem start_constructs_pool_then_starts_threads_witness:
  "\<exists>c'. start (new_coordinator 7 2 5) = Inr c' \<and> length (workers c') = 2 \<and>
     heap c' (workers c' ! 1) =
        Some \<lparr>worker_id = 1, worker_parent = 7, worker_throughput = 5,
              this_thread = running, local_queue = []\<rparr> \<and>
     trace c' = [ev_new_worker (workers c' ! 0) 0 7 5, ev_new_worker (workers c' ! 1) 1 7 5,
                 ev_worker_start (workers c' ! 0), ev_worker_start (workers c' ! 1), ev_super_start]"
proof -
  from start_constructs_pool_then_starts_threads [of 7 2 5] obtain c' where c':
    "start (new_coordinator 7 2 5) = Inr c'" "length (workers c') = 2"
    "\<forall>i<2. heap c' (workers c' ! i) =
        Some \<lparr>worker_id = i, worker_parent = 7, worker_throughput = 5,
              this_thread = running, local_queue = []\<rparr>"
    "trace c' = map (\<lambda>i. ev_new_worker (workers c' ! i) i 7 5) [0..<2]
                @ map ev_worker_start (workers c') @ [ev_super_start]"
    by blast
  from c'(2) obtain a b where ws: "workers c' = [a, b]"
    by (cases "workers c'"; cases "tl (workers c')") auto
  have h: "heap c' (workers c' ! 1) =
        Some \<lparr>worker_id = 1, worker_parent = 7, worker_throughput = 5,
              this_thread = running, local_queue = []\<rparr>"
    using c'(3) by simp
  have "[0..<2] = [0, Suc 0]" by (simp add: upt_rec)
  then show ?thesis
    using c'(1,2,4) h ws by (intro exI [of _ c']) simp
qed

text \<open>
  C7. After \<open>start\<close>, \<open>worker_by_id i\<close> for \<open>i < num_workers\<close> is a pointer that is not null
  and refers to the worker constructed with index \<open>i\<close>. For \<open>i \<ge> num_workers\<close>, and for
  every \<open>i\<close> before \<open>start\<close>, the lookup is out of the range of the vector: undefined
  behaviour, the value \<open>None\<close> of the model.
\<close>

theorem worker_by_id_after_start:
  "start (new_coordinator self n mt) = Inr c' \<Longrightarrow>
     (\<forall>i<n. \<exists>p wk. worker_by_id c' i = Some p \<and> p \<noteq> nullptr \<and>
                 heap c' p = Some wk \<and> worker_id wk = i) \<and>
     (\<forall>i\<ge>n. worker_by_id c' i = None) \<and>
     (\<forall>i. worker_by_id (new_coordinator self n mt) i = None)"
proof -
  assume a: "start (new_coordinator self n mt) = Inr c'"
  from start_new_coordinator [of self n mt] a have c':
    "workers c' = map Suc [0..<n]"
    "\<forall>p. heap c' p = (if 0 < p \<and> p \<le> n then Some ((worker_ctor (p - 1) self mt)\<lparr>this_thread := running\<rparr>) else None)"
    by auto
  have "\<forall>i<n. \<exists>p wk. worker_by_id c' i = Some p \<and> p \<noteq> nullptr \<and>
                 heap c' p = Some wk \<and> worker_id wk = i"
    by (simp add: worker_by_id_def c' nullptr_def worker_ctor_def)
  moreover have "\<forall>i\<ge>n. worker_by_id c' i = None"
    by (simp add: worker_by_id_def c')
  moreover have "\<forall>i. worker_by_id (new_coordinator self n mt) i = None"
    by (simp add: worker_by_id_def new_coordinator_def)
  ultimately show ?thesis by blast
qed

theorem worker_by_id_after_start_witness:
  "\<exists>c'. start (new_coordinator 7 2 5) = Inr c' \<and>
     (\<exists>p wk. worker_by_id c' 1 = Some p \<and> p \<noteq> nullptr \<and> heap c' p = Some wk \<and> worker_id wk = 1) \<and>
     worker_by_id c' 2 = None \<and> worker_by_id (new_coordinator 7 2 5) 0 = None"
proof -
  from start_new_coordinator [of 7 2 5] obtain c' where c': "start (new_coordinator 7 2 5) = Inr c'"
    by blast
  from worker_by_id_after_start [OF c'] show ?thesis
    using c' by (intro exI [of _ c']) simp
qed

subsection \<open>What every operation keeps\<close>

lemma final_Inr [simp]: "final g (Inr x) = g x"
  by (simp add: final_def)

lemma final_Inl [simp]: "final g (Inl (f, c)) = c"
  by (simp add: final_def)

lemma state_of_final: "state_of r = final id r"
  by (simp add: state_of_def final_def split: sum.splits)

lemma steps_to_refl [simp]: "steps_to P c c"
  by (simp add: steps_to_def)

lemma steps_to_trans: "steps_to P a b \<Longrightarrow> steps_to P b c \<Longrightarrow> steps_to P a c"
  by (auto simp: steps_to_def)

lemma steps_to_mono: "steps_to P a b \<Longrightarrow> (\<And>e. P e \<Longrightarrow> Q e) \<Longrightarrow> steps_to Q a b"
  unfolding steps_to_def by (metis (mono_tags, lifting) list_all_iff)

lemma steps_to_log: "list_all P es \<Longrightarrow> steps_to P c (log es c)"
  by (simp add: steps_to_def log_def)

lemma steps_to_and_then:
  assumes "steps_to P c (final h r)"
    and "\<And>x. r = Inr x \<Longrightarrow> steps_to P (h x) (final g (f x))"
  shows "steps_to P c (final g (and_then r f))"
proof (cases r)
  case (Inl e)
  with assms(1) show ?thesis by (cases e) simp
next
  case (Inr x)
  with assms show ?thesis by (auto intro: steps_to_trans)
qed

lemma steps_to_for_each:
  assumes "\<And>x s. x \<in> set xs \<Longrightarrow> steps_to P (g s) (final g (f x s))"
  shows "steps_to P (g s) (final g (for_each f xs s))"
  using assms
proof (induction xs arbitrary: s)
  case Nil
  show ?case by simp
next
  case (Cons x xs)
  show ?case
    unfolding for_each.simps
    by (rule steps_to_and_then [where h = g]) (simp_all add: Cons)
qed

lemma steps_to_external_enqueue:
  "P (ev_external_enqueue w j) \<Longrightarrow> steps_to P c (final id (external_enqueue w j c))"
  by (auto simp: external_enqueue_def steps_to_def log_def split: option.splits)

lemma steps_to_worker_start:
  "P (ev_worker_start w) \<Longrightarrow> steps_to P c (final id (worker_start w c))"
  by (auto simp: worker_start_def steps_to_def log_def split: option.splits)

lemma steps_to_join_thread:
  "P (ev_join w) \<Longrightarrow> steps_to P c (final id (join_thread w c))"
  by (auto simp: join_thread_def steps_to_def log_def split: option.splits thread_state.splits)

lemma fold_cleanup_and_release:
  "fold cleanup_and_release js c = log (map ev_cleanup_and_release js) c"
  by (induction js arbitrary: c) (simp_all add: cleanup_and_release_def log_def)

lemma steps_to_foreach_resumable:
  "P (ev_foreach_resumable w) \<Longrightarrow> (\<And>j. P (ev_cleanup_and_release j)) \<Longrightarrow>
   steps_to P c (final id (foreach_resumable w cleanup_and_release c))"
  by (auto simp: foreach_resumable_def fold_cleanup_and_release steps_to_def log_def list_all_iff
      split: option.splits)

lemma steps_to_run_helper:
  "P ev_lock \<Longrightarrow> P (ev_set_last_worker w) \<Longrightarrow> P ev_notify_all \<Longrightarrow> P ev_unlock \<Longrightarrow>
   steps_to P c (final snd (run_helper chk t w sh c))"
  by (auto simp: run_helper_def resume_def steps_to_def log_def Let_def
      split: option.splits if_splits)

subsection \<open>The drain loop\<close>

declare drain.simps [simp del]

lemma drain_empty: "drain chk sched {} sh c = Inr ({}, sh, c)"
  by (subst drain.simps) simp

lemma drain_Nil:
  "A \<noteq> {} \<Longrightarrow>
   drain chk [] A sh c =
     and_then (external_enqueue (Min A) sh_ptr c) (\<lambda>c1. Inl (blocks_forever, c1))"
  by (subst drain.simps) simp

lemma drain_Cons:
  "A \<noteq> {} \<Longrightarrow>
   drain chk (w # sched) A sh c =
     and_then (external_enqueue (Min A) sh_ptr c) (\<lambda>c1.
       and_then (run_helper chk (Min A) w sh c1) (\<lambda>(sh1, c2).
         if last_worker sh1 = nullptr then Inl (blocks_forever, c2)
         else drain chk sched (A - {last_worker sh1}) (sh1\<lparr>last_worker := nullptr\<rparr>) c2))"
  by (subst drain.simps) simp

lemma steps_to_drain:
  "steps_to drain_event c (final (\<lambda>x. snd (snd x)) (drain chk sched A sh c))"
proof (induction sched arbitrary: A sh c)
  case Nil
  show ?case
    by (cases "A = {}")
      (auto simp: drain_empty drain_Nil intro!: steps_to_and_then [where h = id] steps_to_external_enqueue)
next
  case (Cons w sched)
  show ?case
  proof (cases "A = {}")
    case True
    then show ?thesis by (simp add: drain_empty)
  next
    case False
    show ?thesis
      unfolding drain_Cons [OF False]
    proof (rule steps_to_and_then [where h = id], goal_cases)
      case 1
      show ?case by (simp add: steps_to_external_enqueue)
    next
      case (2 c1)
      show ?case
      proof (rule steps_to_and_then [where h = snd], goal_cases)
        case 1
        show ?case by (simp add: steps_to_run_helper)
      next
        case (2 x)
        show ?case
          by (cases x) (simp add: Cons.IH)
      qed
    qed
  qed
qed

lemma external_enqueue_cases:
  obtains (fault) "external_enqueue w j c = Inl (undefined_behaviour, c)" "heap c w = None"
  | (ok) wk c1 where "external_enqueue w j c = Inr c1" "heap c w = Some wk"
      "c1 = log [ev_external_enqueue w j]
              (c\<lparr>heap := (heap c)(w \<mapsto> wk\<lparr>local_queue := local_queue wk @ [j]\<rparr>)\<rparr>)"
  by (cases "heap c w") (auto simp: external_enqueue_def)

lemma run_helper_cases:
  obtains (fault) f where "run_helper chk t w sh c = Inl (f, c)"
  | (ok) tk wk c2 where "run_helper chk t w sh c = Inr (sh\<lparr>last_worker := w\<rparr>, c2)"
      "heap c t = Some tk" "heap c w = Some wk" "this_thread wk = running"
      "sh_ptr \<in> set (local_queue tk)" "\<not> (chk \<and> w = nullptr)"
      "trace c2 = trace c @ [ev_lock, ev_set_last_worker w, ev_notify_all, ev_unlock]"
proof (cases "heap c t")
  case None
  then have "run_helper chk t w sh c = Inl (blocks_forever, c)"
    by (simp add: run_helper_def)
  then show ?thesis by (rule fault)
next
  case t: (Some tk)
  show ?thesis
  proof (cases "heap c w")
    case None
    with t have "run_helper chk t w sh c = Inl (blocks_forever, c)"
      by (simp add: run_helper_def)
    then show ?thesis by (rule fault)
  next
    case w: (Some wk)
    show ?thesis
    proof (cases "this_thread wk = running \<and> sh_ptr \<in> set (local_queue tk) \<and> \<not> (chk \<and> w = nullptr)")
      case False
      with t w have "\<exists>f. run_helper chk t w sh c = Inl (f, c)"
        by (auto simp: run_helper_def resume_def)
      then show ?thesis using fault by blast
    next
      case True
      with t w have "\<exists>c2. run_helper chk t w sh c = Inr (sh\<lparr>last_worker := w\<rparr>, c2) \<and>
          trace c2 = trace c @ [ev_lock, ev_set_last_worker w, ev_notify_all, ev_unlock]"
        by (auto simp: run_helper_def resume_def log_def Let_def split: option.splits)
      then show ?thesis using ok t w True by blast
    qed
  qed
qed

lemma submits_to_alive_drain:
  "finite A \<Longrightarrow>
   \<exists>es. trace (final (\<lambda>x. snd (snd x)) (drain chk sched A sh c)) = trace c @ es \<and> submits_to_alive A es"
proof (induction sched arbitrary: A sh c)
  case Nil
  show ?case
  proof (cases "A = {}")
    case True
    then show ?thesis by (simp add: drain_empty)
  next
    case False
    with Nil have "Min A \<in> A" by simp
    then show ?thesis
      by (cases rule: external_enqueue_cases [of "Min A" sh_ptr c])
        (simp_all add: drain_Nil [OF False] log_def)
  qed
next
  case (Cons w sched)
  show ?case
  proof (cases "A = {}")
    case True
    then show ?thesis by (simp add: drain_empty)
  next
    case False
    with Cons.prems have min: "Min A \<in> A" by simp
    show ?thesis
    proof (cases rule: external_enqueue_cases [of "Min A" sh_ptr c])
      case fault
      then show ?thesis by (simp add: drain_Cons [OF False])
    next
      case (ok tk c1)
      have t1: "trace c1 = trace c @ [ev_external_enqueue (Min A) sh_ptr]"
        by (simp add: ok(3) log_def)
      show ?thesis
      proof (cases rule: run_helper_cases [of chk "Min A" w sh c1])
        case (fault f)
        then show ?thesis
          using min by (simp add: drain_Cons [OF False] ok(1) t1)
      next
        case (ok tk' wk c2)
        note rh = ok
        show ?thesis
        proof (cases "w = nullptr")
          case True
          then show ?thesis
            using min rh(1,7) \<open>external_enqueue (Min A) sh_ptr c = Inr c1\<close> t1
            by (simp add: drain_Cons [OF \<open>A \<noteq> {}\<close>])
        next
          case False
          from Cons.prems have "finite (A - {w})" by simp
          from Cons.IH [OF this, of "sh\<lparr>last_worker := nullptr\<rparr>" c2] obtain es where es:
            "trace (final (\<lambda>x. snd (snd x)) (drain chk sched (A - {w}) (sh\<lparr>last_worker := nullptr\<rparr>) c2))
               = trace c2 @ es" "submits_to_alive (A - {w}) es"
            by blast
          show ?thesis
            using min False es
            by (simp add: drain_Cons [OF \<open>A \<noteq> {}\<close>] \<open>external_enqueue (Min A) sh_ptr c = Inr c1\<close> rh(1,7) t1)
        qed
      qed
    qed
  qed
qed

lemma thread_of_running:
  "thread_of c p = Some running \<longleftrightarrow> (\<exists>wk. heap c p = Some wk \<and> this_thread wk = running)"
  by (auto simp: thread_of_def)

lemma run_helper_ok:
  assumes "heap c t = Some tk" "sh_ptr \<in> set (local_queue tk)"
    and "thread_of c w = Some running" "w \<noteq> nullptr"
  shows "\<exists>c2. run_helper chk t w sh c = Inr (sh\<lparr>last_worker := w\<rparr>, c2) \<and>
     trace c2 = trace c @ [ev_lock, ev_set_last_worker w, ev_notify_all, ev_unlock] \<and>
     policy_data c2 = policy_data c \<and>
     (\<forall>p. thread_of c2 p = (if p = w then Some terminated else thread_of c p)) \<and>
     (\<forall>p. map_option local_queue (heap c2 p) =
            (if p = t then Some (remove1 sh_ptr (local_queue tk))
             else map_option local_queue (heap c p)))"
proof -
  from assms(3) obtain wk where "heap c w = Some wk" "this_thread wk = running"
    by (auto simp: thread_of_def)
  with assms(1,2,4) show ?thesis
    by (auto simp: run_helper_def resume_def log_def Let_def thread_of_def)
qed

lemma run_helper_stuck:
  assumes "thread_of c w \<noteq> Some running"
  shows "\<exists>e. run_helper chk t w sh c = Inl e"
  using assms by (auto simp: run_helper_def thread_of_def split: option.splits)

lemma alive_inv_Min:
  assumes "alive_inv A c" "A \<noteq> {}"
  shows "\<exists>tk. heap c (Min A) = Some tk \<and> this_thread tk = running"
proof -
  from assms(1) have "finite A" by (simp add: alive_inv_def)
  with assms(2) have "Min A \<in> A" by simp
  with assms(1) have "thread_of c (Min A) = Some running"
    unfolding alive_inv_def by blast
  then show ?thesis by (simp add: thread_of_running)
qed

lemma drain_stuck:
  assumes inv: "alive_inv A c" and ne: "A \<noteq> {}" and w: "w \<notin> A"
  shows "\<exists>e. drain chk (w # sched) A sh c = Inl e"
proof -
  from alive_inv_Min [OF inv ne] obtain tk where tk: "heap c (Min A) = Some tk" by blast
  define c1 where "c1 = log [ev_external_enqueue (Min A) sh_ptr]
     (c\<lparr>heap := (heap c)(Min A \<mapsto> tk\<lparr>local_queue := local_queue tk @ [sh_ptr]\<rparr>)\<rparr>)"
  have ee: "external_enqueue (Min A) sh_ptr c = Inr c1"
    by (simp add: external_enqueue_def tk c1_def)
  have "\<And>p. thread_of c1 p = thread_of c p"
    using tk by (auto simp: c1_def log_def thread_of_def)
  with inv w have "thread_of c1 w \<noteq> Some running"
    by (simp add: alive_inv_def)
  from run_helper_stuck [OF this] obtain e where "run_helper chk (Min A) w sh c1 = Inl e"
    by blast
  then show ?thesis
    by (simp add: drain_Cons [OF ne] ee)
qed

lemma drain_Nil_stuck:
  assumes inv: "alive_inv A c" and ne: "A \<noteq> {}"
  shows "\<exists>e. drain chk [] A sh c = Inl e"
  by (cases rule: external_enqueue_cases [of "Min A" sh_ptr c]) (simp_all add: drain_Nil [OF ne])

lemma drain_step:
  assumes inv: "alive_inv A c" and w: "w \<in> A"
  shows "\<exists>c2. drain chk (w # sched) A sh c
               = drain chk sched (A - {w}) (sh\<lparr>last_worker := nullptr\<rparr>) c2 \<and>
     alive_inv (A - {w}) c2 \<and>
     trace c2 = trace c @ [ev_external_enqueue (Min A) sh_ptr, ev_lock, ev_set_last_worker w,
                           ev_notify_all, ev_unlock] \<and>
     policy_data c2 = policy_data c \<and>
     (\<forall>p. thread_of c2 p = (if p = w then Some terminated else thread_of c p)) \<and>
     (\<forall>p. map_option local_queue (heap c2 p) =
            (if p = Min A
             then map_option (\<lambda>q. remove1 sh_ptr (q @ [sh_ptr])) (map_option local_queue (heap c p))
             else map_option local_queue (heap c p)))"
proof -
  from w have ne: "A \<noteq> {}" by auto
  from alive_inv_Min [OF inv ne] obtain tk where tk: "heap c (Min A) = Some tk" by blast
  define c1 where "c1 = log [ev_external_enqueue (Min A) sh_ptr]
     (c\<lparr>heap := (heap c)(Min A \<mapsto> tk\<lparr>local_queue := local_queue tk @ [sh_ptr]\<rparr>)\<rparr>)"
  have ee: "external_enqueue (Min A) sh_ptr c = Inr c1"
    by (simp add: external_enqueue_def tk c1_def)
  have c1: "trace c1 = trace c @ [ev_external_enqueue (Min A) sh_ptr]"
    "policy_data c1 = policy_data c"
    "heap c1 (Min A) = Some (tk\<lparr>local_queue := local_queue tk @ [sh_ptr]\<rparr>)"
    "\<And>p. thread_of c1 p = thread_of c p"
    "\<And>p. p \<noteq> Min A \<Longrightarrow> heap c1 p = heap c p"
    using tk by (auto simp: c1_def log_def thread_of_def)
  from inv w have "thread_of c w = Some running" "w \<noteq> nullptr"
    unfolding alive_inv_def by blast+
  then have wk: "thread_of c1 w = Some running" "w \<noteq> nullptr"
    by (simp_all add: c1(4))
  have "sh_ptr \<in> set (local_queue (tk\<lparr>local_queue := local_queue tk @ [sh_ptr]\<rparr>))"
    by simp
  from run_helper_ok [OF c1(3) this wk, of chk sh] obtain c2 where c2:
    "run_helper chk (Min A) w sh c1 = Inr (sh\<lparr>last_worker := w\<rparr>, c2)"
    "trace c2 = trace c1 @ [ev_lock, ev_set_last_worker w, ev_notify_all, ev_unlock]"
    "policy_data c2 = policy_data c1"
    "\<forall>p. thread_of c2 p = (if p = w then Some terminated else thread_of c1 p)"
    "\<forall>p. map_option local_queue (heap c2 p) =
            (if p = Min A then Some (remove1 sh_ptr (local_queue tk @ [sh_ptr]))
             else map_option local_queue (heap c1 p))"
    by auto
  have eq: "drain chk (w # sched) A sh c
               = drain chk sched (A - {w}) (sh\<lparr>last_worker := nullptr\<rparr>) c2"
    using wk(2) by (simp add: drain_Cons [OF ne] ee c2(1))
  have th: "\<forall>p. thread_of c2 p = (if p = w then Some terminated else thread_of c p)"
    using c2(4) c1(4) by simp
  have inv2: "alive_inv (A - {w}) c2"
    unfolding alive_inv_def
  proof (intro conjI allI)
    from inv show "finite (A - {w})" by (simp add: alive_inv_def)
    from inv show "nullptr \<notin> A - {w}" unfolding alive_inv_def by blast
    fix p
    from inv have "p \<in> A \<longleftrightarrow> thread_of c p = Some running"
      unfolding alive_inv_def by blast
    then show "p \<in> A - {w} \<longleftrightarrow> thread_of c2 p = Some running"
      using th by simp
  qed
  have q: "\<forall>p. map_option local_queue (heap c2 p) =
            (if p = Min A
             then map_option (\<lambda>q. remove1 sh_ptr (q @ [sh_ptr])) (map_option local_queue (heap c p))
             else map_option local_queue (heap c p))"
    using c2(5) c1(5) tk by simp
  show ?thesis
    using eq inv2 c2(2,3) c1(1,2) th q by (intro exI [of _ c2]) simp
qed

lemma fair_empty [simp]: "fair {} sched"
  by (simp add: fair_def)

lemma fair_Nil [simp]: "fair A [] \<longleftrightarrow> A = {}"
  by (auto simp: fair_def)

lemma card_alive_remove:
  assumes "finite A" "w \<in> A"
  shows "card A = Suc (card (A - {w}))"
  using assms by (rule card.remove)

lemma fair_Cons_in:
  assumes "finite A" "w \<in> A"
  shows "fair A (w # sched) \<longleftrightarrow> fair (A - {w}) sched"
proof -
  define S where "S = set (take (card (A - {w})) sched)"
  have "take (card A) (w # sched) = w # take (card (A - {w})) sched"
    by (simp add: card_alive_remove [OF assms])
  then have "fair A (w # sched) \<longleftrightarrow>
      w \<notin> S \<and> distinct (take (card (A - {w})) sched) \<and> insert w S = A"
    by (simp add: fair_def S_def)
  moreover have "w \<notin> S \<and> insert w S = A \<longleftrightarrow> S = A - {w}"
    using assms(2) by blast
  ultimately show ?thesis
    unfolding fair_def S_def by blast
qed

lemma fair_Cons_out:
  assumes "finite A" "A \<noteq> {}" "w \<notin> A"
  shows "\<not> fair A (w # sched)"
proof -
  from assms(1,2) obtain k where "card A = Suc k"
    by (cases "card A") auto
  then have "w \<in> set (take (card A) (w # sched))" by simp
  with assms(3) show ?thesis unfolding fair_def by blast
qed

lemma drain_returns_iff:
  "alive_inv A c \<Longrightarrow> (\<exists>r. drain chk sched A sh c = Inr r) \<longleftrightarrow> fair A sched"
proof (induction sched arbitrary: A sh c)
  case Nil
  show ?case
  proof (cases "A = {}")
    case True
    then show ?thesis by (simp add: drain_empty)
  next
    case False
    from drain_Nil_stuck [OF Nil False, of chk sh] show ?thesis
      using False by auto
  qed
next
  case (Cons w sched)
  then have fin: "finite A" by (simp add: alive_inv_def)
  show ?case
  proof (cases "A = {}")
    case True
    then show ?thesis by (simp add: drain_empty)
  next
    case ne: False
    show ?thesis
    proof (cases "w \<in> A")
      case True
      from drain_step [OF Cons.prems True, of chk sched sh] obtain c2 where c2:
        "drain chk (w # sched) A sh c
           = drain chk sched (A - {w}) (sh\<lparr>last_worker := nullptr\<rparr>) c2"
        "alive_inv (A - {w}) c2"
        by blast
      show ?thesis
        unfolding c2(1) fair_Cons_in [OF fin True] by (rule Cons.IH [OF c2(2)])
    next
      case False
      from drain_stuck [OF Cons.prems ne False, of chk sched sh] fair_Cons_out [OF fin ne False, of sched]
      show ?thesis by auto
    qed
  qed
qed

lemma submissions_append [simp]: "submissions (xs @ ys) = submissions xs @ submissions ys"
  by (induction xs rule: submissions.induct) simp_all

lemma reports_append [simp]: "reports (xs @ ys) = reports xs @ reports ys"
  by (induction xs rule: reports.induct) simp_all

lemma drain_result:
  "alive_inv A c \<Longrightarrow> drain chk sched A sh c = Inr (A', sh', c') \<Longrightarrow>
     A' = {} \<and> rc sh' = rc sh \<and> policy_data c' = policy_data c \<and>
     (\<exists>es. trace c' = trace c @ es \<and> reports es = take (card A) sched \<and>
           length (submissions es) = card A \<and> set (submissions es) \<subseteq> A) \<and>
     (\<forall>p. thread_of c' p = (if p \<in> A then Some terminated else thread_of c p))"
proof (induction sched arbitrary: A sh c)
  case Nil
  show ?case
  proof (cases "A = {}")
    case True
    with Nil.prems(2) show ?thesis by (simp add: drain_empty)
  next
    case False
    from drain_Nil_stuck [OF Nil.prems(1) False, of chk sh] Nil.prems(2) show ?thesis by auto
  qed
next
  case (Cons w sched)
  then have fin: "finite A" by (simp add: alive_inv_def)
  show ?case
  proof (cases "A = {}")
    case True
    with Cons.prems(2) show ?thesis by (simp add: drain_empty)
  next
    case ne: False
    show ?thesis
    proof (cases "w \<in> A")
      case False
      from drain_stuck [OF Cons.prems(1) ne False, of chk sched sh] Cons.prems(2) show ?thesis by auto
    next
      case True
      from drain_step [OF Cons.prems(1) True, of chk sched sh] obtain c2 where c2:
        "drain chk (w # sched) A sh c
           = drain chk sched (A - {w}) (sh\<lparr>last_worker := nullptr\<rparr>) c2"
        "alive_inv (A - {w}) c2"
        "trace c2 = trace c @ [ev_external_enqueue (Min A) sh_ptr, ev_lock, ev_set_last_worker w,
                           ev_notify_all, ev_unlock]"
        "policy_data c2 = policy_data c"
        "\<forall>p. thread_of c2 p = (if p = w then Some terminated else thread_of c p)"
        by blast
      from Cons.prems(2) have "drain chk sched (A - {w}) (sh\<lparr>last_worker := nullptr\<rparr>) c2
          = Inr (A', sh', c')"
        by (simp add: c2(1))
      from Cons.IH [OF c2(2) this] obtain es where es:
        "A' = {}" "rc sh' = rc sh" "policy_data c' = policy_data c2"
        "trace c' = trace c2 @ es" "reports es = take (card (A - {w})) sched"
        "length (submissions es) = card (A - {w})" "set (submissions es) \<subseteq> A - {w}"
        "\<forall>p. thread_of c' p = (if p \<in> A - {w} then Some terminated else thread_of c2 p)"
        by auto
      define es0 where "es0 = [ev_external_enqueue (Min A) sh_ptr, ev_lock, ev_set_last_worker w,
                           ev_notify_all, ev_unlock] @ es"
      from fin ne have min: "Min A \<in> A" by simp
      have "trace c' = trace c @ es0"
        by (simp add: es(4) c2(3) es0_def)
      moreover have "reports es0 = take (card A) (w # sched)"
        by (simp add: es0_def es(5) card_alive_remove [OF fin True])
      moreover have "length (submissions es0) = card A"
        by (simp add: es0_def es(6) card_alive_remove [OF fin True])
      moreover have "set (submissions es0) \<subseteq> A"
        using es(7) min by (auto simp: es0_def)
      moreover have "\<forall>p. thread_of c' p = (if p \<in> A then Some terminated else thread_of c p)"
        using es(8) c2(5) True by auto
      ultimately show ?thesis
        using es(1,2,3) c2(4) by auto
    qed
  qed
qed

lemma drain_Inr_empty:
  "drain chk sched A sh c = Inr (A', sh', c') \<Longrightarrow> A' = {} \<and> rc sh' = rc sh"
proof (induction sched arbitrary: A sh c)
  case Nil
  show ?case
  proof (cases "A = {}")
    case True
    with Nil show ?thesis by (simp add: drain_empty)
  next
    case False
    with Nil show ?thesis
      by (cases rule: external_enqueue_cases [of "Min A" sh_ptr c]) (simp_all add: drain_Nil)
  qed
next
  case (Cons w sched)
  show ?case
  proof (cases "A = {}")
    case True
    with Cons.prems show ?thesis by (simp add: drain_empty)
  next
    case False
    show ?thesis
    proof (cases rule: external_enqueue_cases [of "Min A" sh_ptr c])
      case fault
      with Cons.prems show ?thesis by (simp add: drain_Cons [OF False])
    next
      case (ok tk c1)
      note ee = ok(1)
      show ?thesis
      proof (cases rule: run_helper_cases [of chk "Min A" w sh c1])
        case (fault f)
        with Cons.prems show ?thesis by (simp add: drain_Cons [OF False] ee)
      next
        case (ok tk' wk c2)
        with Cons.prems have
          "w \<noteq> nullptr \<and> drain chk sched (A - {w}) (sh\<lparr>last_worker := nullptr\<rparr>) c2 = Inr (A', sh', c')"
          by (simp add: drain_Cons [OF False] ee split: if_splits)
        with Cons.IH [of "A - {w}" "sh\<lparr>last_worker := nullptr\<rparr>" c2] show ?thesis by simp
      qed
    qed
  qed
qed

lemma for_each_append:
  "for_each f (xs @ ys) s = and_then (for_each f xs s) (for_each f ys)"
  by (induction xs arbitrary: s) (simp_all add: and_then_def split: sum.splits)

lemma log_log [simp]: "log es (log es' c) = log (es' @ es) c"
  by (simp add: log_def)

lemma log_fields [simp]:
  "workers (log es c) = workers c" "heap (log es c) = heap c" "this (log es c) = this c"
  "num_workers (log es c) = num_workers c" "max_throughput (log es c) = max_throughput c"
  "brk (log es c) = brk c" "policy_data (log es c) = policy_data c"
  "trace (log es c) = trace c @ es"
  by (simp_all add: log_def)

lemma log_Nil [simp]: "log [] c = c"
  by (simp add: log_def)

lemma insert_alive_loop:
  "for_each insert_alive [0..<n] (A, sh, c) =
     (if n \<le> length (workers c)
      then Inr (A \<union> set (take n (workers c)), sh\<lparr>rc := rc sh + n\<rparr>, log (replicate n ev_ref) c)
      else Inl (undefined_behaviour, log (replicate (length (workers c)) ev_ref) c))"
proof (induction n)
  case 0
  show ?case by simp
next
  case (Suc n)
  show ?case
  proof (cases "n < length (workers c)")
    case True
    then have "take (Suc n) (workers c) = take n (workers c) @ [workers c ! n]"
      by (simp add: take_Suc_conv_app_nth)
    with True Suc show ?thesis
      by (simp add: for_each_append insert_alive_def worker_by_id_def ref_def
          replicate_append_same)
  next
    case False
    with Suc show ?thesis
      by (auto simp: for_each_append insert_alive_def worker_by_id_def)
  qed
qed

subsection \<open>Joining and cleaning up\<close>

lemma queue_of_log [simp]: "queue_of (log es c) = queue_of c"
  by (simp add: queue_of_def fun_eq_iff)

lemma thread_of_log [simp]: "thread_of (log es c) = thread_of c"
  by (simp add: thread_of_def fun_eq_iff)

lemma join_thread_Inr:
  assumes "join_thread w c = Inr c'"
  shows "trace c' = trace c @ [ev_join w] \<and> workers c' = workers c \<and>
     policy_data c' = policy_data c \<and> this c' = this c \<and> queue_of c' = queue_of c \<and>
     thread_of c w = Some terminated \<and>
     (\<forall>p. thread_of c' p = (if p = w then Some joined else thread_of c p))"
proof (cases "heap c w")
  case None
  with assms show ?thesis by (simp add: join_thread_def)
next
  case (Some wk)
  with assms have t: "this_thread wk = terminated"
    by (cases "this_thread wk") (simp_all add: join_thread_def)
  with assms Some have "c' = log [ev_join w] (c\<lparr>heap := (heap c)(w \<mapsto> wk\<lparr>this_thread := joined\<rparr>)\<rparr>)"
    by (simp add: join_thread_def)
  with Some t show ?thesis
    by (auto simp: queue_of_def thread_of_def fun_eq_iff)
qed

lemma join_thread_ok:
  assumes "thread_of c w = Some terminated"
  shows "\<exists>c'. join_thread w c = Inr c'"
  using assms by (auto simp: thread_of_def join_thread_def)

lemma for_each_join_Inr:
  "for_each join_thread ws c = Inr c' \<Longrightarrow>
     trace c' = trace c @ map ev_join ws \<and> workers c' = workers c \<and>
     policy_data c' = policy_data c \<and> this c' = this c \<and> queue_of c' = queue_of c \<and>
     (\<forall>p. thread_of c' p = None \<longleftrightarrow> thread_of c p = None)"
proof (induction ws arbitrary: c)
  case Nil
  then show ?case by simp
next
  case (Cons w ws)
  from Cons.prems obtain c1 where c1: "join_thread w c = Inr c1" "for_each join_thread ws c1 = Inr c'"
    by (auto simp: and_then_eq_Inr)
  from join_thread_Inr [OF c1(1)] Cons.IH [OF c1(2)] show ?case by simp
qed

lemma for_each_join_ok:
  "distinct ws \<Longrightarrow> \<forall>p\<in>set ws. thread_of c p = Some terminated \<Longrightarrow>
     \<exists>c'. for_each join_thread ws c = Inr c'"
proof (induction ws arbitrary: c)
  case Nil
  show ?case by simp
next
  case (Cons w ws)
  from Cons.prems(2) have "thread_of c w = Some terminated" by simp
  from join_thread_ok [OF this] obtain c1 where c1: "join_thread w c = Inr c1" by blast
  from join_thread_Inr [OF c1] Cons.prems have "\<forall>p\<in>set ws. thread_of c1 p = Some terminated"
    by auto
  with Cons.IH [of c1] Cons.prems(1) obtain c' where "for_each join_thread ws c1 = Inr c'"
    by auto
  with c1 show ?case by simp
qed

lemma foreach_resumable_Inr:
  "foreach_resumable w cleanup_and_release c = Inr c' \<longleftrightarrow>
     heap c w \<noteq> None \<and>
     c' = log (ev_foreach_resumable w # map ev_cleanup_and_release (queue_of c w)) c"
  by (cases "heap c w")
    (auto simp: foreach_resumable_def fold_cleanup_and_release queue_of_def)

lemma for_each_foreach_resumable_Inr:
  "for_each (\<lambda>w. foreach_resumable w cleanup_and_release) ws c = Inr c' \<longleftrightarrow>
     (\<forall>w\<in>set ws. heap c w \<noteq> None) \<and>
     c' = log (concat (map (\<lambda>w. ev_foreach_resumable w # map ev_cleanup_and_release (queue_of c w)) ws)) c"
proof (induction ws arbitrary: c)
  case Nil
  show ?case by auto
next
  case (Cons w ws)
  show ?case
    by (auto simp: and_then_eq_Inr foreach_resumable_Inr Cons.IH)
qed

lemma cleanup_resumables_Inr:
  "cleanup_resumables c = Inr c' \<longleftrightarrow>
     (\<forall>w\<in>set (workers c). heap c w \<noteq> None) \<and> c' = log (cleanup_events c) c"
  by (auto simp: cleanup_resumables_def and_then_eq_Inr for_each_foreach_resumable_Inr
      foreach_central_resumable_def fold_cleanup_and_release cleanup_events_def)

lemma new_events_append: "trace c' = trace c @ es \<Longrightarrow> new_events c c' = es"
  by (simp add: new_events_def)

lemma steps_to_insert_alive:
  "steps_to drain_event (snd (snd s)) (final (\<lambda>x. snd (snd x)) (insert_alive i s))"
  by (cases s) (auto simp: insert_alive_def steps_to_log split: option.splits)

lemma steps_to_shutdown_workers:
  "steps_to drain_event c (final (\<lambda>x. snd (snd x)) (shutdown_workers chk rc0 sched c))"
  unfolding shutdown_workers_def
proof (rule steps_to_and_then [where h = "\<lambda>x. snd (snd x)"], goal_cases)
  case 1
  from steps_to_for_each [where g = "\<lambda>x. snd (snd x)" and f = insert_alive
      and P = drain_event and s = "({}, new_shutdown_helper rc0, c)"]
  show ?case by (simp add: steps_to_insert_alive)
next
  case (2 x)
  show ?case by (cases x) (simp add: steps_to_drain)
qed

lemma shutdown_workers_eq:
  "shutdown_workers chk rc0 sched c =
     (if num_workers c \<le> length (workers c)
      then drain chk sched (set (take (num_workers c) (workers c)))
             ((new_shutdown_helper rc0)\<lparr>rc := rc0 + num_workers c\<rparr>)
             (log (replicate (num_workers c) ev_ref) c)
      else Inl (undefined_behaviour, log (replicate (length (workers c)) ev_ref) c))"
  by (simp add: shutdown_workers_def insert_alive_loop new_shutdown_helper_def)

lemma shutdown_workers_Inr:
  assumes "shutdown_workers chk rc0 sched c = Inr (A, sh, c1)"
  shows "A = {} \<and> workers c1 = workers c \<and> this c1 = this c \<and>
     (\<exists>es. trace c1 = trace c @ es \<and> list_all drain_event es)"
proof -
  from assms have "num_workers c \<le> length (workers c)"
    by (simp add: shutdown_workers_eq split: if_splits)
  with assms have "A = {}"
    using drain_Inr_empty by (fastforce simp: shutdown_workers_eq)
  moreover from steps_to_shutdown_workers [of c chk rc0 sched] assms
  have "steps_to drain_event c c1" by simp
  ultimately show ?thesis by (simp add: steps_to_def)
qed

lemma cleanup_events_cong:
  "workers c' = workers c \<Longrightarrow> policy_data c' = policy_data c \<Longrightarrow> queue_of c' = queue_of c \<Longrightarrow>
   cleanup_events c' = cleanup_events c"
  by (simp add: cleanup_events_def)

lemma stop_Inr:
  assumes "stop chk rc0 sched c = Inr c'"
  shows "\<exists>sh c1 c3. shutdown_workers chk rc0 sched c = Inr ({}, sh, c1) \<and>
     join_workers (stop_actors c1) = Inr c3 \<and> cleanup_resumables c3 = Inr c' \<and>
     workers c1 = workers c \<and> workers c' = workers c \<and>
     trace c' = trace c1 @ ev_stop_actors # map ev_join (workers c) @ cleanup_events c1"
proof -
  from assms obtain A sh c1 c3 where r:
    "shutdown_workers chk rc0 sched c = Inr (A, sh, c1)"
    "join_workers (stop_actors c1) = Inr c3" "cleanup_resumables c3 = Inr c'"
    by (auto simp: stop_def and_then_eq_Inr)
  from shutdown_workers_Inr [OF r(1)] have c1: "A = {}" "workers c1 = workers c" by simp_all
  from r(2) have "for_each join_thread (workers c1) (log [ev_stop_actors] c1) = Inr c3"
    by (simp add: join_workers_def stop_actors_def)
  from for_each_join_Inr [OF this] have c3:
    "trace c3 = trace c1 @ ev_stop_actors # map ev_join (workers c1)"
    "workers c3 = workers c1" "policy_data c3 = policy_data c1" "queue_of c3 = queue_of c1"
    by simp_all
  from r(3) have "c' = log (cleanup_events c3) c3"
    by (simp add: cleanup_resumables_Inr)
  moreover have "cleanup_events c3 = cleanup_events c1"
    by (rule cleanup_events_cong) (simp_all add: c3)
  ultimately have "trace c' = trace c1 @ ev_stop_actors # map ev_join (workers c) @ cleanup_events c1"
    "workers c' = workers c"
    by (simp_all add: c3 c1)
  with r c1 show ?thesis by blast
qed

lemma started_start:
  assumes "start (new_coordinator self n mt) = Inr c"
  shows "started c"
proof -
  from start_new_coordinator [of self n mt] assms have c:
    "num_workers c = n" "workers c = map Suc [0..<n]"
    "\<forall>p. heap c p = (if 0 < p \<and> p \<le> n
                       then Some ((worker_ctor (p - 1) self mt)\<lparr>this_thread := running\<rparr>) else None)"
    by auto
  have "\<forall>p. p \<notin> set (workers c) \<longrightarrow> heap c p = None"
  proof (intro allI impI)
    fix p assume "p \<notin> set (workers c)"
    then have "\<not> (0 < p \<and> p \<le> n)"
      by (cases p) (auto simp: c(2) image_iff)
    then show "heap c p = None" by (simp add: c(3))
  qed
  moreover have "\<forall>p\<in>set (workers c). \<exists>wk. heap c p = Some wk \<and> this_thread wk = running"
    by (auto simp: c(2,3))
  ultimately show ?thesis
    unfolding started_def by (simp add: c(1,2) distinct_map nullptr_def)
qed

lemma started_enqueue: "started c \<Longrightarrow> started (enqueue c j)"
  by (simp add: started_def enqueue_def central_enqueue_def log_def)

lemma started_external_enqueue:
  assumes "started c" "external_enqueue w j c = Inr c'"
  shows "started c'"
proof (cases rule: external_enqueue_cases [of w j c])
  case fault
  with assms(2) show ?thesis by simp
next
  case (ok wk c1)
  with assms(2) have c': "c' = log [ev_external_enqueue w j]
              (c\<lparr>heap := (heap c)(w \<mapsto> wk\<lparr>local_queue := local_queue wk @ [j]\<rparr>)\<rparr>)"
    by simp
  from assms(1) ok(2) have "w \<in> set (workers c)"
    unfolding started_def by force
  with assms(1) ok(2) show ?thesis
    unfolding started_def c' by auto
qed

lemma started_alive_inv:
  assumes "started c"
  shows "alive_inv (set (workers c)) (log es c)"
  unfolding alive_inv_def
proof (intro conjI allI)
  show "finite (set (workers c))" by simp
  from assms show "nullptr \<notin> set (workers c)" by (simp add: started_def)
  fix p
  show "p \<in> set (workers c) \<longleftrightarrow> thread_of (log es c) p = Some running"
  proof (cases "p \<in> set (workers c)")
    case True
    with assms have "\<exists>wk. heap c p = Some wk \<and> this_thread wk = running"
      unfolding started_def by blast
    with True show ?thesis by (simp add: thread_of_running)
  next
    case False
    with assms have "heap c p = None" unfolding started_def by blast
    with False show ?thesis by (simp add: thread_of_def)
  qed
qed

lemma quiet_reports: "list_all quiet es \<Longrightarrow> reports es = [] \<and> submissions es = []"
proof (induction es)
  case Nil
  show ?case by simp
next
  case (Cons e es)
  then show ?case by (cases e) simp_all
qed

lemma quiet_replicate_ref: "list_all quiet (replicate n ev_ref)"
  by (simp add: list_all_iff)

lemma quiet_joins: "list_all quiet (map ev_join ws)"
  by (simp add: list_all_iff)

lemma quiet_cleanup_events: "list_all quiet (cleanup_events c)"
  by (auto simp: cleanup_events_def list_all_iff)

lemma started_shutdown_workers:
  assumes "started c"
  shows "shutdown_workers chk rc0 sched c =
     drain chk sched (set (workers c)) ((new_shutdown_helper rc0)\<lparr>rc := rc0 + num_workers c\<rparr>)
       (log (replicate (num_workers c) ev_ref) c)"
  using assms by (simp add: shutdown_workers_eq started_def)

lemma started_delivers:
  assumes "started c"
  shows "fair (set (workers c)) sched \<longleftrightarrow> delivers sched c"
proof -
  from assms have "card (set (workers c)) = num_workers c"
    by (simp add: started_def distinct_card)
  then show ?thesis by (simp add: fair_def delivers_def)
qed

lemma started_stop_returns_iff:
  assumes "started c"
  shows "(\<exists>c'. stop chk rc0 sched c = Inr c') \<longleftrightarrow> delivers sched c"
proof -
  define sh0 where "sh0 = (new_shutdown_helper rc0)\<lparr>rc := rc0 + num_workers c\<rparr>"
  define c0 where "c0 = log (replicate (num_workers c) ev_ref) c"
  have inv: "alive_inv (set (workers c)) c0"
    unfolding c0_def by (rule started_alive_inv [OF assms])
  have sw_eq: "shutdown_workers chk rc0 sched c = drain chk sched (set (workers c)) sh0 c0"
    unfolding sh0_def c0_def by (rule started_shutdown_workers [OF assms])
  have iff: "(\<exists>r. drain chk sched (set (workers c)) sh0 c0 = Inr r) \<longleftrightarrow> delivers sched c"
    unfolding started_delivers [OF assms, symmetric] by (rule drain_returns_iff [OF inv])
  show ?thesis
  proof
    assume "\<exists>c'. stop chk rc0 sched c = Inr c'"
    then obtain c' where "stop chk rc0 sched c = Inr c'" ..
    from stop_Inr [OF this] obtain sh c1 where "shutdown_workers chk rc0 sched c = Inr ({}, sh, c1)"
      by blast
    then have "drain chk sched (set (workers c)) sh0 c0 = Inr ({}, sh, c1)"
      by (simp only: sw_eq)
    then have "\<exists>r. drain chk sched (set (workers c)) sh0 c0 = Inr r" ..
    with iff show "delivers sched c" by blast
  next
    assume "delivers sched c"
    with iff obtain r where "drain chk sched (set (workers c)) sh0 c0 = Inr r" by blast
    then obtain A sh c1 where r: "drain chk sched (set (workers c)) sh0 c0 = Inr (A, sh, c1)"
      by (cases r) auto
    then have sw: "shutdown_workers chk rc0 sched c = Inr (A, sh, c1)"
      by (simp only: sw_eq)
    from shutdown_workers_Inr [OF sw] have w1: "workers c1 = workers c" by simp
    from drain_result [OF inv r]
    have tmd: "\<forall>p\<in>set (workers c). thread_of c1 p = Some terminated" by simp
    from assms have "distinct (workers c1)" by (simp add: w1 started_def)
    moreover from tmd have "\<forall>p\<in>set (workers c1). thread_of (stop_actors c1) p = Some terminated"
      by (simp add: w1 stop_actors_def)
    ultimately obtain c3 where c3: "for_each join_thread (workers c1) (stop_actors c1) = Inr c3"
      using for_each_join_ok by blast
    from for_each_join_Inr [OF c3] tmd
    have "workers c3 = workers c" "\<forall>p\<in>set (workers c). thread_of c3 p \<noteq> None"
      by (auto simp: w1 stop_actors_def)
    then have "\<forall>w\<in>set (workers c3). heap c3 w \<noteq> None"
      by (auto simp: thread_of_def)
    then have "cleanup_resumables c3 = Inr (log (cleanup_events c3) c3)"
      by (simp add: cleanup_resumables_Inr)
    with sw c3 show "\<exists>c'. stop chk rc0 sched c = Inr c'"
      by (simp add: stop_def join_workers_def stop_actors_def)
  qed
qed

lemma returns_iff: "returns r \<longleftrightarrow> (\<exists>x. r = Inr x)"
  by (cases r) (simp_all add: returns_def)

lemma state_of_Inr: "r = Inr c \<Longrightarrow> state_of r = c"
  by (simp add: state_of_def)

lemma started_example_pool: "started example_pool"
proof -
  from start_new_coordinator [of 7 2 5] obtain c0 where c0: "start (new_coordinator 7 2 5) = Inr c0"
    by blast
  have s1: "started (enqueue c0 (job 4))"
    by (rule started_enqueue [OF started_start [OF c0]])
  have "returns (external_enqueue 1 (job 9) (enqueue (state_of (start (new_coordinator 7 2 5))) (job 4)))"
    by code_simp
  then obtain c1 where c1: "external_enqueue 1 (job 9) (enqueue c0 (job 4)) = Inr c1"
    by (auto simp: returns_iff c0 state_of_def)
  then have "example_pool = c1"
    by (simp add: example_pool_def c0 state_of_def)
  with started_external_enqueue [OF s1 c1] show ?thesis by simp
qed

lemma quiet_submits_to_alive: "list_all quiet es \<Longrightarrow> submits_to_alive A es"
proof (induction es)
  case Nil
  show ?case by simp
next
  case (Cons e es)
  then show ?case by (cases e) simp_all
qed

lemma submits_to_alive_append:
  "submits_to_alive A (xs @ ys) \<longleftrightarrow>
     submits_to_alive A xs \<and> submits_to_alive (A - set (reports xs)) ys"
proof (induction A xs rule: submits_to_alive.induct)
  case (3 A w es)
  have "A - {w} - set (reports es) = A - insert w (set (reports es))" by blast
  with 3 show ?case by simp
qed simp_all

lemma submits_to_alive_not_reported:
  assumes "submits_to_alive A (xs @ ev_set_last_worker w # ys @ ev_external_enqueue t sh_ptr # zs)"
  shows "t \<noteq> w"
proof -
  from assms have "submits_to_alive (A - set (reports xs) - {w}) (ys @ ev_external_enqueue t sh_ptr # zs)"
    by (simp add: submits_to_alive_append)
  then have "t \<in> A - set (reports xs) - {w} - set (reports ys)"
    by (simp add: submits_to_alive_append)
  then show ?thesis by blast
qed

lemma steps_to_stop_actors: "P ev_stop_actors \<Longrightarrow> steps_to P c (stop_actors c)"
  by (simp add: stop_actors_def steps_to_log)

lemma steps_to_cleanup_resumables:
  assumes "\<And>w. P (ev_foreach_resumable w)" "\<And>j. P (ev_cleanup_and_release j)"
    "P ev_foreach_central_resumable"
  shows "steps_to P c (final id (cleanup_resumables c))"
  unfolding cleanup_resumables_def
proof (rule steps_to_and_then [where h = id], goal_cases)
  case 1
  from steps_to_for_each [where g = id and P = P and s = c
      and f = "\<lambda>w. foreach_resumable w cleanup_and_release" and xs = "workers c"]
  show ?case by (simp add: steps_to_foreach_resumable assms)
next
  case (2 c')
  have "steps_to P c' (log (ev_foreach_central_resumable # map ev_cleanup_and_release (policy_data c')) c')"
    by (rule steps_to_log) (simp add: assms list_all_iff)
  then show ?case
    by (simp add: foreach_central_resumable_def fold_cleanup_and_release)
qed

lemma steps_to_late:
  assumes "P ev_stop_actors" "\<And>w. P (ev_join w)"
    "\<And>w. P (ev_foreach_resumable w)" "\<And>j. P (ev_cleanup_and_release j)"
    "P ev_foreach_central_resumable"
  shows "steps_to P c (final id (and_then (join_workers (stop_actors c)) cleanup_resumables))"
proof (rule steps_to_and_then [where h = id], goal_cases)
  case 1
  from steps_to_for_each [where g = id and P = P and s = "stop_actors c"
      and f = join_thread and xs = "workers (stop_actors c)"]
  have "steps_to P (stop_actors c) (final id (join_workers (stop_actors c)))"
    by (simp add: join_workers_def steps_to_join_thread assms)
  with steps_to_stop_actors [of P c] show ?case
    by (auto intro: steps_to_trans simp: assms)
next
  case (2 x)
  show ?case by (simp add: steps_to_cleanup_resumables assms)
qed

lemma steps_to_stop: "steps_to (\<lambda>e. True) c (state_of (stop chk rc0 sched c))"
  unfolding stop_def state_of_final
proof (rule steps_to_and_then [where h = "\<lambda>x. snd (snd x)"], goal_cases)
  case 1
  show ?case
    by (rule steps_to_mono [OF steps_to_shutdown_workers]) simp
next
  case (2 x)
  show ?case
    by (cases x) (simp add: steps_to_late)
qed

lemma stop_submits_to_alive:
  "submits_to_alive (set (take (num_workers c) (workers c)))
     (new_events c (state_of (stop chk rc0 sched c)))"
proof (cases "num_workers c \<le> length (workers c)")
  case False
  then have "stop chk rc0 sched c
      = Inl (undefined_behaviour, log (replicate (length (workers c)) ev_ref) c)"
    by (simp add: stop_def shutdown_workers_eq)
  then have "new_events c (state_of (stop chk rc0 sched c)) = replicate (length (workers c)) ev_ref"
    by (simp add: state_of_def new_events_def)
  then show ?thesis
    by (simp add: quiet_submits_to_alive quiet_replicate_ref)
next
  case True
  define A0 where "A0 = set (take (num_workers c) (workers c))"
  define sh0 where "sh0 = (new_shutdown_helper rc0)\<lparr>rc := rc0 + num_workers c\<rparr>"
  define c0 where "c0 = log (replicate (num_workers c) ev_ref) c"
  define pre where "pre = replicate (num_workers c) ev_ref"
  have pre: "submits_to_alive A0 pre" "reports pre = []"
    using quiet_replicate_ref [of "num_workers c"]
    by (simp_all add: pre_def quiet_submits_to_alive quiet_reports)
  have sw: "shutdown_workers chk rc0 sched c = drain chk sched A0 sh0 c0"
    using True by (simp add: shutdown_workers_eq A0_def sh0_def c0_def)
  have "finite A0" by (simp add: A0_def)
  from submits_to_alive_drain [OF this, of chk sched sh0 c0] obtain es where es:
    "trace (final (\<lambda>x. snd (snd x)) (drain chk sched A0 sh0 c0)) = trace c0 @ es"
    "submits_to_alive A0 es"
    by blast
  have "\<exists>es3. trace (state_of (stop chk rc0 sched c)) = trace c @ (pre @ es @ es3) \<and> list_all quiet es3"
  proof (cases "drain chk sched A0 sh0 c0")
    case (Inl e)
    obtain f cf where e: "e = (f, cf)" by (cases e)
    from Inl have "stop chk rc0 sched c = Inl (f, cf)"
      by (simp add: stop_def sw e)
    moreover from es(1) Inl have "trace cf = trace c0 @ es"
      by (simp add: e)
    ultimately have "trace (state_of (stop chk rc0 sched c)) = trace c @ (pre @ es @ [])"
      by (simp add: state_of_def c0_def pre_def)
    then show ?thesis by (intro exI [of _ "[]"]) simp
  next
    case (Inr r)
    obtain A' sh' c1 where r: "r = (A', sh', c1)" by (cases r)
    from Inr have st: "stop chk rc0 sched c = and_then (join_workers (stop_actors c1)) cleanup_resumables"
      by (simp add: stop_def sw r)
    from es(1) Inr have t1: "trace c1 = trace c0 @ es"
      by (simp add: r)
    have "steps_to quiet c1 (final id (and_then (join_workers (stop_actors c1)) cleanup_resumables))"
      by (rule steps_to_late) simp_all
    then obtain es3 where "trace (state_of (stop chk rc0 sched c)) = trace c1 @ es3" "list_all quiet es3"
      by (auto simp: steps_to_def st state_of_final)
    then show ?thesis
      by (intro exI [of _ es3]) (simp add: t1 c0_def pre_def)
  qed
  then obtain es3 where es3: "trace (state_of (stop chk rc0 sched c)) = trace c @ (pre @ es @ es3)"
    "list_all quiet es3"
    by blast
  from new_events_append [OF es3(1)] pre es(2) quiet_submits_to_alive [OF es3(2)]
  show ?thesis
    by (simp add: submits_to_alive_append A0_def [symmetric])
qed

subsection \<open>The shutdown protocol\<close>

text \<open>
  C1. Let \<open>stop\<close> be called on a started coordinator with \<open>num_workers\<close> workers (any
  number, so any number from 1 on), and let the policy let some worker find each
  submission. The call returns exactly when the policy is correct with respect to
  liveness, and then: the loop started with the set of all workers, the helper was
  submitted exactly \<open>num_workers\<close> times, each time to a member of the current set, it
  reported exactly \<open>num_workers\<close> times, every worker of the pool once and no worker
  twice, and the loop ended with the empty set.
\<close>

theorem stop_shuts_down_each_worker_once:
  assumes "started c"
  shows "((\<exists>c'. stop chk rc0 sched c = Inr c') \<longleftrightarrow> delivers sched c) \<and>
     (\<exists>sh0 c0. for_each insert_alive [0..<num_workers c] ({}, new_shutdown_helper rc0, c)
                = Inr (set (workers c), sh0, c0)) \<and>
     card (set (workers c)) = num_workers c \<and>
     (\<forall>c'. stop chk rc0 sched c = Inr c' \<longrightarrow>
        (\<exists>sh c1. shutdown_workers chk rc0 sched c = Inr ({}, sh, c1)) \<and>
        submits_to_alive (set (workers c)) (new_events c c') \<and>
        length (submissions (new_events c c')) = num_workers c \<and>
        set (submissions (new_events c c')) \<subseteq> set (workers c) \<and>
        reports (new_events c c') = take (num_workers c) sched \<and>
        length (reports (new_events c c')) = num_workers c \<and>
        distinct (reports (new_events c c')) \<and>
        set (reports (new_events c c')) = set (workers c))"
proof (intro conjI allI impI)
  show iff: "(\<exists>c'. stop chk rc0 sched c = Inr c') \<longleftrightarrow> delivers sched c"
    by (rule started_stop_returns_iff [OF assms])
  from assms have len: "length (workers c) = num_workers c"
    by (simp add: started_def)
  then show "\<exists>sh0 c0. for_each insert_alive [0..<num_workers c] ({}, new_shutdown_helper rc0, c)
                = Inr (set (workers c), sh0, c0)"
    by (simp add: insert_alive_loop)
  from assms show "card (set (workers c)) = num_workers c"
    by (simp add: started_def distinct_card)
  fix c'
  assume st: "stop chk rc0 sched c = Inr c'"
  from stop_submits_to_alive [of c chk rc0 sched] st len
  show "submits_to_alive (set (workers c)) (new_events c c')"
    by (simp add: state_of_def)
  define sh0 where "sh0 = (new_shutdown_helper rc0)\<lparr>rc := rc0 + num_workers c\<rparr>"
  define c0 where "c0 = log (replicate (num_workers c) ev_ref) c"
  have inv: "alive_inv (set (workers c)) c0"
    unfolding c0_def by (rule started_alive_inv [OF assms])
  have sw_eq: "shutdown_workers chk rc0 sched c = drain chk sched (set (workers c)) sh0 c0"
    unfolding sh0_def c0_def by (rule started_shutdown_workers [OF assms])
  from assms have card: "card (set (workers c)) = num_workers c"
    by (simp add: started_def distinct_card)
  from stop_Inr [OF st] obtain sh c1 where r:
    "shutdown_workers chk rc0 sched c = Inr ({}, sh, c1)"
    "trace c' = trace c1 @ ev_stop_actors # map ev_join (workers c) @ cleanup_events c1"
    by blast
  from r(1) show "\<exists>sh c1. shutdown_workers chk rc0 sched c = Inr ({}, sh, c1)" by blast
  from r(1) have "drain chk sched (set (workers c)) sh0 c0 = Inr ({}, sh, c1)"
    by (simp only: sw_eq)
  from drain_result [OF inv this] obtain es where es:
    "trace c1 = trace c0 @ es" "reports es = take (num_workers c) sched"
    "length (submissions es) = num_workers c" "set (submissions es) \<subseteq> set (workers c)"
    unfolding card by blast
  define late where "late = ev_stop_actors # map ev_join (workers c) @ cleanup_events c1"
  have "list_all quiet late"
    using quiet_joins [of "workers c"] quiet_cleanup_events [of c1] by (simp add: late_def)
  from quiet_reports [OF this] quiet_reports [OF quiet_replicate_ref [of "num_workers c"]]
  have q: "reports late = []" "submissions late = []"
    "reports (replicate (num_workers c) ev_ref) = []"
    "submissions (replicate (num_workers c) ev_ref) = []"
    by simp_all
  have "trace c' = trace c @ (replicate (num_workers c) ev_ref @ es @ late)"
    by (simp add: r(2) es(1) c0_def late_def)
  from new_events_append [OF this]
  have ne: "reports (new_events c c') = take (num_workers c) sched"
    "submissions (new_events c c') = submissions es"
    by (simp_all add: q es(2))
  from iff st have d: "distinct (take (num_workers c) sched)"
    "set (take (num_workers c) sched) = set (workers c)"
    by (auto simp: delivers_def)
  show "length (submissions (new_events c c')) = num_workers c"
    by (simp add: ne es(3))
  show "set (submissions (new_events c c')) \<subseteq> set (workers c)"
    by (simp add: ne es(4))
  show "reports (new_events c c') = take (num_workers c) sched"
    by (rule ne(1))
  show "distinct (reports (new_events c c'))"
    by (simp add: ne d)
  show "set (reports (new_events c c')) = set (workers c)"
    by (simp add: ne d)
  from d card have "length (take (num_workers c) sched) = num_workers c"
    using distinct_card by fastforce
  then show "length (reports (new_events c c')) = num_workers c"
    by (simp only: ne)
qed

theorem stop_shuts_down_each_worker_once_witness:
  "started example_pool \<and> delivers [2, 1] example_pool \<and>
   (\<exists>c'. stop True 1 [2, 1] example_pool = Inr c' \<and>
      submissions (new_events example_pool c') = [1, 1] \<and>
      reports (new_events example_pool c') = [2, 1] \<and>
      num_workers example_pool = 2)"
proof -
  have d: "delivers [2, 1] example_pool" by code_simp
  from stop_shuts_down_each_worker_once [OF started_example_pool, of True 1 "[2, 1]"] d
  obtain c' where c': "stop True 1 [2, 1] example_pool = Inr c'"
    by blast
  have "submissions (new_events example_pool (state_of (stop True 1 [2, 1] example_pool))) = [1, 1]"
    "reports (new_events example_pool (state_of (stop True 1 [2, 1] example_pool))) = [2, 1]"
    "num_workers example_pool = 2"
    by code_simp+
  with c' d started_example_pool show ?thesis
    by (simp add: state_of_def)
qed

text \<open>
  C4. A call of \<open>stop\<close> that returns has made its calls in this order: first those of
  the first loop and the drain loop, which ends with the empty set, then
  \<open>stop_actors\<close>, then the join of every worker's thread in pool order, then the cleanup
  pass. None of the events of the first phase is \<open>stop_actors\<close>, a join or a cleanup call.
\<close>

theorem stop_phase_order:
  assumes "stop chk rc0 sched c = Inr c'"
  shows "\<exists>sh c1. shutdown_workers chk rc0 sched c = Inr ({}, sh, c1) \<and>
     list_all drain_event (new_events c c1) \<and>
     new_events c c' =
       new_events c c1 @ [ev_stop_actors] @ map ev_join (workers c) @ cleanup_events c1"
proof -
  from stop_Inr [OF assms] obtain sh c1 where r:
    "shutdown_workers chk rc0 sched c = Inr ({}, sh, c1)"
    "trace c' = trace c1 @ ev_stop_actors # map ev_join (workers c) @ cleanup_events c1"
    by blast
  from shutdown_workers_Inr [OF r(1)] obtain es where es:
    "trace c1 = trace c @ es" "list_all drain_event es"
    by blast
  have "trace c' = trace c @ (es @ [ev_stop_actors] @ map ev_join (workers c) @ cleanup_events c1)"
    by (simp add: r(2) es(1))
  from new_events_append [OF this] new_events_append [OF es(1)] es(2) r(1)
  show ?thesis by simp
qed

theorem stop_phase_order_witness:
  "\<exists>c' sh c1. stop True 1 [2, 1] example_pool = Inr c' \<and>
     shutdown_workers True 1 [2, 1] example_pool = Inr ({}, sh, c1) \<and>
     new_events example_pool c' =
       new_events example_pool c1 @ [ev_stop_actors] @ map ev_join (workers example_pool)
         @ cleanup_events c1 \<and>
     new_events example_pool c' =
       [ev_ref, ev_ref,
        ev_external_enqueue 1 sh_ptr, ev_lock, ev_set_last_worker 2, ev_notify_all, ev_unlock,
        ev_external_enqueue 1 sh_ptr, ev_lock, ev_set_last_worker 1, ev_notify_all, ev_unlock,
        ev_stop_actors, ev_join 1, ev_join 2,
        ev_foreach_resumable 1, ev_cleanup_and_release (job 9), ev_foreach_resumable 2,
        ev_foreach_central_resumable, ev_cleanup_and_release (job 4)]"
proof -
  have "returns (stop True 1 [2, 1] example_pool)" by code_simp
  then obtain c' where c': "stop True 1 [2, 1] example_pool = Inr c'"
    by (auto simp: returns_iff)
  have "new_events example_pool (state_of (stop True 1 [2, 1] example_pool)) =
       [ev_ref, ev_ref,
        ev_external_enqueue 1 sh_ptr, ev_lock, ev_set_last_worker 2, ev_notify_all, ev_unlock,
        ev_external_enqueue 1 sh_ptr, ev_lock, ev_set_last_worker 1, ev_notify_all, ev_unlock,
        ev_stop_actors, ev_join 1, ev_join 2,
        ev_foreach_resumable 1, ev_cleanup_and_release (job 9), ev_foreach_resumable 2,
        ev_foreach_central_resumable, ev_cleanup_and_release (job 4)]"
    by code_simp
  with stop_phase_order [OF c'] c' show ?thesis
    by (auto simp: state_of_def)
qed

text \<open>
  C5. After the joins, \<open>stop\<close> calls \<open>foreach_resumable\<close> once for every worker of the
  pool, in pool order, and then \<open>foreach_central_resumable\<close> once. The resumables handed
  to \<open>cleanup_and_release\<close> are those queued at the workers and in the central queue when
  the drain loop ended, each as often as it is queued: once, when no resumable is queued
  twice.
\<close>

theorem stop_cleans_every_queued_resumable_once:
  assumes "shutdown_workers chk rc0 sched c = Inr (A, sh, c1)"
    and "stop chk rc0 sched c = Inr c'"
  shows "foreach_calls (new_events c1 c') =
           map ev_foreach_resumable (workers c) @ [ev_foreach_central_resumable] \<and>
         cleaned (new_events c1 c') = queued c1 \<and>
         (\<forall>j. count_list (cleaned (new_events c1 c')) j = count_list (queued c1) j) \<and>
         (distinct (queued c1) \<longrightarrow> distinct (cleaned (new_events c1 c')))"
proof -
  from stop_Inr [OF assms(2)] assms(1) have w: "workers c1 = workers c"
    and t: "trace c' = trace c1 @ ev_stop_actors # map ev_join (workers c) @ cleanup_events c1"
    by auto
  have fc_app: "\<And>xs ys. foreach_calls (xs @ ys) = foreach_calls xs @ foreach_calls ys"
  proof -
    fix xs ys show "foreach_calls (xs @ ys) = foreach_calls xs @ foreach_calls ys"
      by (induction xs rule: foreach_calls.induct) simp_all
  qed
  have cl_app: "\<And>xs ys. cleaned (xs @ ys) = cleaned xs @ cleaned ys"
  proof -
    fix xs ys show "cleaned (xs @ ys) = cleaned xs @ cleaned ys"
      by (induction xs rule: cleaned.induct) simp_all
  qed
  have fc_cl: "\<And>js. foreach_calls (map ev_cleanup_and_release js) = []"
  proof -
    fix js show "foreach_calls (map ev_cleanup_and_release js) = []" by (induction js) simp_all
  qed
  have cl_cl: "\<And>js. cleaned (map ev_cleanup_and_release js) = js"
  proof -
    fix js show "cleaned (map ev_cleanup_and_release js) = js" by (induction js) simp_all
  qed
  have fc_j: "\<And>ws. foreach_calls (map ev_join ws) = []"
  proof -
    fix ws show "foreach_calls (map ev_join ws) = []" by (induction ws) simp_all
  qed
  have cl_j: "\<And>ws. cleaned (map ev_join ws) = []"
  proof -
    fix ws show "cleaned (map ev_join ws) = []" by (induction ws) simp_all
  qed
  have fc_w: "\<And>ws. foreach_calls (concat (map (\<lambda>w. ev_foreach_resumable w
                  # map ev_cleanup_and_release (queue_of c1 w)) ws)) = map ev_foreach_resumable ws"
  proof -
    fix ws show "foreach_calls (concat (map (\<lambda>w. ev_foreach_resumable w
                  # map ev_cleanup_and_release (queue_of c1 w)) ws)) = map ev_foreach_resumable ws"
      by (induction ws) (simp_all add: fc_app fc_cl)
  qed
  have cl_w: "\<And>ws. cleaned (concat (map (\<lambda>w. ev_foreach_resumable w
                  # map ev_cleanup_and_release (queue_of c1 w)) ws)) = concat (map (queue_of c1) ws)"
  proof -
    fix ws show "cleaned (concat (map (\<lambda>w. ev_foreach_resumable w
                  # map ev_cleanup_and_release (queue_of c1 w)) ws)) = concat (map (queue_of c1) ws)"
      by (induction ws) (simp_all add: cl_app cl_cl)
  qed
  from new_events_append [OF t]
  have ne: "new_events c1 c' = ev_stop_actors # map ev_join (workers c) @ cleanup_events c1" .
  have 1: "foreach_calls (new_events c1 c') =
           map ev_foreach_resumable (workers c) @ [ev_foreach_central_resumable]"
    by (simp add: ne cleanup_events_def fc_app fc_j fc_w fc_cl w)
  have 2: "cleaned (new_events c1 c') = queued c1"
    by (simp add: ne cleanup_events_def queued_def cl_app cl_j cl_w cl_cl w)
  from 1 2 show ?thesis by simp
qed

theorem stop_cleans_every_queued_resumable_once_witness:
  "\<exists>sh c1 c'. shutdown_workers True 1 [2, 1] example_pool = Inr ({}, sh, c1) \<and>
     stop True 1 [2, 1] example_pool = Inr c' \<and>
     queued c1 = [job 9, job 4] \<and> distinct (queued c1) \<and>
     foreach_calls (new_events c1 c') =
       [ev_foreach_resumable 1, ev_foreach_resumable 2, ev_foreach_central_resumable] \<and>
     cleaned (new_events c1 c') = [job 9, job 4] \<and>
     count_list (cleaned (new_events c1 c')) (job 9) = 1 \<and>
     distinct (cleaned (new_events c1 c'))"
proof -
  have "returns (stop True 1 [2, 1] example_pool)" by code_simp
  then obtain c' where c': "stop True 1 [2, 1] example_pool = Inr c'"
    by (auto simp: returns_iff)
  from stop_Inr [OF c'] obtain sh c1 where c1:
    "shutdown_workers True 1 [2, 1] example_pool = Inr ({}, sh, c1)"
    by blast
  have e: "state_of3 (shutdown_workers True 1 [2, 1] example_pool) = c1"
    unfolding c1 by (simp add: state_of3_def)
  have "queued (state_of3 (shutdown_workers True 1 [2, 1] example_pool)) = [job 9, job 4]"
    "workers example_pool = [1, 2]"
    by code_simp+
  then have q: "queued c1 = [job 9, job 4]" "workers example_pool = [1, 2]"
    unfolding e by simp_all
  from stop_cleans_every_queued_resumable_once [OF c1 c'] q c1 c'
  show ?thesis by (intro exI [of _ sh] exI [of _ c1] exI [of _ c']) simp
qed

lemma rc_deref_funpow: "rc ((deref ^^ k) sh) = rc sh - k"
  by (induction k) (simp_all add: deref_def)

text \<open>
  C10. With the pool populated, the first loop of \<open>stop\<close> adds exactly \<open>num_workers\<close>
  references to the helper, one for each worker it inserts into the set, and these are all
  its events: the first submission comes after them. The drain loop does not change the
  count. Up to \<open>num_workers\<close> releases leave at least the count the helper was constructed
  with, so that the helper is not destroyed when that count is positive.
\<close>

theorem stop_refs_helper_once_per_worker:
  assumes "num_workers c \<le> length (workers c)"
  shows "\<exists>A sh c1.
     for_each insert_alive [0..<num_workers c] ({}, new_shutdown_helper rc0, c) = Inr (A, sh, c1) \<and>
     shutdown_workers chk rc0 sched c = drain chk sched A sh c1 \<and>
     A = set (take (num_workers c) (workers c)) \<and>
     rc sh = rc0 + num_workers c \<and>
     new_events c c1 = replicate (num_workers c) ev_ref \<and>
     (\<forall>A' sh' c'. shutdown_workers chk rc0 sched c = Inr (A', sh', c') \<longrightarrow>
        rc sh' = rc0 + num_workers c) \<and>
     (\<forall>k\<le>num_workers c.
        rc ((deref ^^ k) sh) = rc0 + num_workers c - k \<and>
        (0 < rc0 \<longrightarrow> \<not> destroyed ((deref ^^ k) sh)))"
proof -
  define A where "A = set (take (num_workers c) (workers c))"
  define sh where "sh = (new_shutdown_helper rc0)\<lparr>rc := rc0 + num_workers c\<rparr>"
  define c1 where "c1 = log (replicate (num_workers c) ev_ref) c"
  have loop: "for_each insert_alive [0..<num_workers c] ({}, new_shutdown_helper rc0, c)
      = Inr (A, sh, c1)"
    using assms by (simp add: insert_alive_loop A_def sh_def c1_def new_shutdown_helper_def)
  have sw: "shutdown_workers chk rc0 sched c = drain chk sched A sh c1"
    by (simp add: shutdown_workers_def loop)
  have rc: "rc sh = rc0 + num_workers c"
    by (simp add: sh_def)
  have ne: "new_events c c1 = replicate (num_workers c) ev_ref"
    by (simp add: new_events_def c1_def)
  have after: "\<forall>A' sh' c'. shutdown_workers chk rc0 sched c = Inr (A', sh', c') \<longrightarrow>
        rc sh' = rc0 + num_workers c"
    using drain_Inr_empty [of chk sched A sh c1] by (simp add: sw rc)
  have rel: "\<forall>k\<le>num_workers c.
        rc ((deref ^^ k) sh) = rc0 + num_workers c - k \<and>
        (0 < rc0 \<longrightarrow> \<not> destroyed ((deref ^^ k) sh))"
    by (auto simp: rc_deref_funpow rc destroyed_def)
  from loop sw rc ne after rel show ?thesis
    unfolding A_def by blast
qed

theorem stop_refs_helper_once_per_worker_witness:
  "num_workers example_pool \<le> length (workers example_pool) \<and>
   (\<exists>A sh c1.
     for_each insert_alive [0..<num_workers example_pool] ({}, new_shutdown_helper 1, example_pool)
       = Inr (A, sh, c1) \<and>
     rc sh = 3 \<and> new_events example_pool c1 = [ev_ref, ev_ref] \<and>
     rc ((deref ^^ 2) sh) = 1 \<and> \<not> destroyed ((deref ^^ 2) sh))"
proof -
  have n: "num_workers example_pool = 2" "length (workers example_pool) = 2"
    by code_simp+
  then have le: "num_workers example_pool \<le> length (workers example_pool)" by simp
  from stop_refs_helper_once_per_worker [OF le, of 1 True "[2, 1]"] obtain A sh c1 where r:
    "for_each insert_alive [0..<num_workers example_pool] ({}, new_shutdown_helper 1, example_pool)
       = Inr (A, sh, c1)"
    "rc sh = 1 + num_workers example_pool"
    "new_events example_pool c1 = replicate (num_workers example_pool) ev_ref"
    "\<forall>k\<le>num_workers example_pool.
        rc ((deref ^^ k) sh) = 1 + num_workers example_pool - k \<and>
        ((0::nat) < 1 \<longrightarrow> \<not> destroyed ((deref ^^ k) sh))"
    by blast
  from r(4) have "rc ((deref ^^ 2) sh) = 1 + num_workers example_pool - 2 \<and>
        \<not> destroyed ((deref ^^ 2) sh)"
    by (simp add: n)
  with r(1,2,3) le show ?thesis
    by (intro conjI exI [of _ A] exI [of _ sh] exI [of _ c1]) (simp_all add: n numeral_2_eq_2)
qed

text \<open>
  C2. In every call of \<open>stop\<close>, returning or not: each submission of the helper goes to
  a member of the set of workers alive, which starts as the set of all workers and loses a
  worker with its report; so no submission goes to a worker that has reported before.
\<close>

theorem stop_never_resubmits_to_reported_worker:
  "submits_to_alive (set (take (num_workers c) (workers c)))
     (new_events c (state_of (stop chk rc0 sched c))) \<and>
   (\<forall>xs w ys t zs.
      new_events c (state_of (stop chk rc0 sched c))
        = xs @ ev_set_last_worker w # ys @ ev_external_enqueue t sh_ptr # zs \<longrightarrow> t \<noteq> w)"
  using stop_submits_to_alive [of c chk rc0 sched] submits_to_alive_not_reported
  by metis

theorem stop_never_resubmits_to_reported_worker_witness:
  "new_events example_pool (state_of (stop True 1 [2, 1] example_pool))
     = [ev_ref, ev_ref, ev_external_enqueue 1 sh_ptr, ev_lock]
       @ ev_set_last_worker 2
       # [ev_notify_all, ev_unlock]
       @ ev_external_enqueue 1 sh_ptr
       # [ev_lock, ev_set_last_worker 1, ev_notify_all, ev_unlock, ev_stop_actors, ev_join 1,
          ev_join 2, ev_foreach_resumable 1, ev_cleanup_and_release (job 9),
          ev_foreach_resumable 2, ev_foreach_central_resumable, ev_cleanup_and_release (job 4)] \<and>
   (1::nat) \<noteq> 2 \<and>
   submits_to_alive (set (take (num_workers example_pool) (workers example_pool)))
     (new_events example_pool (state_of (stop True 1 [2, 1] example_pool)))"
proof -
  have "new_events example_pool (state_of (stop True 1 [2, 1] example_pool))
     = [ev_ref, ev_ref, ev_external_enqueue 1 sh_ptr, ev_lock]
       @ ev_set_last_worker 2
       # [ev_notify_all, ev_unlock]
       @ ev_external_enqueue 1 sh_ptr
       # [ev_lock, ev_set_last_worker 1, ev_notify_all, ev_unlock, ev_stop_actors, ev_join 1,
          ev_join 2, ev_foreach_resumable 1, ev_cleanup_and_release (job 9),
          ev_foreach_resumable 2, ev_foreach_central_resumable, ev_cleanup_and_release (job 4)]"
    by code_simp
  with stop_never_resubmits_to_reported_worker [of example_pool True 1 "[2, 1]"]
  show ?thesis by blast
qed

lemma steps_to_perform: "steps_to (\<lambda>e. True) c (final id (perform call c))"
proof (cases call)
  case (call_enqueue p)
  then show ?thesis
    by (simp add: enqueue_def central_enqueue_def steps_to_def log_def)
next
  case (call_worker_by_id x)
  then show ?thesis by (simp split: option.splits)
next
  case call_data
  then show ?thesis by simp
next
  case (call_stop chk rc0 sched)
  with steps_to_stop [of c chk rc0 sched] show ?thesis
    by (simp add: state_of_final)
qed

subsection \<open>The pool is written once\<close>

text \<open>
  C8. No sequence of calls of \<open>enqueue\<close>, \<open>worker_by_id\<close>, \<open>data\<close> and \<open>stop\<close> changes
  the pool: whatever the calls and however they end, the vector holds the same pointers in
  the same order, so has the same length, and they refer to workers with the same indices.
\<close>

theorem pool_is_read_only_after_start:
  "workers (state_of (for_each perform calls c)) = workers c \<and>
   length (workers (state_of (for_each perform calls c))) = length (workers c) \<and>
   pool_ids (state_of (for_each perform calls c)) = pool_ids c"
proof -
  from steps_to_for_each [where g = id and P = "\<lambda>e. True" and s = c and f = perform and xs = calls]
  have "steps_to (\<lambda>e. True) c (state_of (for_each perform calls c))"
    by (simp add: steps_to_perform state_of_final)
  then show ?thesis
    by (simp add: steps_to_def pool_ids_def)
qed

theorem pool_is_read_only_after_start_witness:
  "workers (state_of (for_each perform
      [call_enqueue (job 1), call_worker_by_id 0, call_data, call_stop True 1 [2, 1]]
      example_pool)) = [1, 2] \<and>
   workers example_pool = [1, 2] \<and>
   pool_ids (state_of (for_each perform
      [call_enqueue (job 1), call_worker_by_id 0, call_data, call_stop True 1 [2, 1]]
      example_pool)) = [Some 0, Some 1] \<and>
   returns (for_each perform
      [call_enqueue (job 1), call_worker_by_id 0, call_data, call_stop True 1 [2, 1]]
      example_pool)"
proof -
  have "workers example_pool = [1, 2]" "pool_ids example_pool = [Some 0, Some 1]"
    "returns (for_each perform
      [call_enqueue (job 1), call_worker_by_id 0, call_data, call_stop True 1 [2, 1]]
      example_pool)"
    by code_simp+
  with pool_is_read_only_after_start [of
      "[call_enqueue (job 1), call_worker_by_id 0, call_data, call_stop True 1 [2, 1]]" example_pool]
  show ?thesis by simp
qed

end
